theory Spec2Isabelle
  imports Complex_Main "HOL-Library.AList" "HOL-Library.Multiset"
begin

section \<open>Conventions of the embedding\<close>

text \<open>
  The development embeds \<^verbatim>\<open>data.py\<close> and \<^verbatim>\<open>algo.py\<close> of the diff-privacy
  repository.

  \<^item> A Python \<^verbatim>\<open>dict\<close> keeps its insertion order, and several loops of the source
    iterate dictionaries, so a dictionary is an association list: \<open>d[k] = v\<close> replaces
    the value of an existing key in place and appends a new key at the end.
  \<^item> \<open>d[k]\<close> on a missing key raises \<^verbatim>\<open>KeyError\<close>; every raise of the source is an
    \<open>Inl\<close> result.
  \<^item> A Python \<^verbatim>\<open>set\<close> is a HOL set. The order in which Python iterates a set is
    not fixed by the language; wherever the source iterates a set the model takes the order
    from a parameter \<open>so\<close> that turns a set into a list.
  \<^item> Python \<^verbatim>\<open>float\<close> values are modelled as exact reals: rounding is outside the
    model.
  \<^item> Calls of the logger are left out, except where a theorem speaks about them.
\<close>

datatype error = KeyError | Exception | ZeroDivisionError | ValueError

type_synonym 'a result = "error + 'a"

definition ebind :: "'a result \<Rightarrow> ('a \<Rightarrow> 'b result) \<Rightarrow> 'b result" where
  "ebind m f = (case m of Inl e \<Rightarrow> Inl e | Inr x \<Rightarrow> f x)"

text \<open>A \<^verbatim>\<open>for\<close> loop whose body may raise: the first error ends the loop.\<close>

fun efold :: "('a \<Rightarrow> 's \<Rightarrow> 's result) \<Rightarrow> 'a list \<Rightarrow> 's \<Rightarrow> 's result" where
  "efold f [] s = Inr s"
| "efold f (x # xs) s = ebind (f x s) (efold f xs)"

text \<open>A comprehension whose element expression may raise.\<close>

fun emap :: "('a \<Rightarrow> 'b result) \<Rightarrow> 'a list \<Rightarrow> 'b list result" where
  "emap f [] = Inr []"
| "emap f (x # xs) = ebind (f x) (\<lambda>y. ebind (emap f xs) (\<lambda>ys. Inr (y # ys)))"

subsection \<open>Dictionaries\<close>

type_synonym ('k, 'v) dict = "('k \<times> 'v) list"

definition dict_keys :: "('k, 'v) dict \<Rightarrow> 'k list" where
  "dict_keys d = map fst d"

definition dict_has :: "('k, 'v) dict \<Rightarrow> 'k \<Rightarrow> bool" where
  "dict_has d k = (k \<in> set (dict_keys d))"

definition dict_get :: "('k, 'v) dict \<Rightarrow> 'k \<Rightarrow> 'v result" where
  "dict_get d k = (case map_of d k of None \<Rightarrow> Inl KeyError | Some v \<Rightarrow> Inr v)"

definition dict_set :: "('k, 'v) dict \<Rightarrow> 'k \<Rightarrow> 'v \<Rightarrow> ('k, 'v) dict" where
  "dict_set d k v = AList.update k v d"

text \<open>
  \<open>dd_get dflt d k\<close> reads a \<^verbatim>\<open>defaultdict\<close> (or a \<^verbatim>\<open>Counter\<close>) whose missing
  keys read as \<open>dflt\<close>. Reading a missing key of a \<^verbatim>\<open>defaultdict\<close> also stores the
  default under that key; the source never iterates a \<^verbatim>\<open>defaultdict\<close> after such a
  read, so the model reads without storing.
\<close>

definition dd_get :: "'v \<Rightarrow> ('k, 'v) dict \<Rightarrow> 'k \<Rightarrow> 'v" where
  "dd_get dflt d k = (case map_of d k of None \<Rightarrow> dflt | Some v \<Rightarrow> v)"

text \<open>A dictionary comprehension \<^verbatim>\<open>{k: v for ...}\<close> stores the pairs one by one.\<close>

definition dict_of :: "('k \<times> 'v) list \<Rightarrow> ('k, 'v) dict" where
  "dict_of kvs = fold (\<lambda>(k, v) d. dict_set d k v) kvs []"

section \<open>The data model (\<^verbatim>\<open>data.py\<close>)\<close>

datatype Trajectory = Trajectory (locations: "int list")

record ITDBuilder =
  b_uid :: int
  b_trajs :: "(Trajectory, int) dict"

definition ITDBuilder_init :: "int \<Rightarrow> ITDBuilder" where
  "ITDBuilder_init u = \<lparr>b_uid = u, b_trajs = []\<rparr>"

definition ITDBuilder_add :: "ITDBuilder \<Rightarrow> Trajectory \<Rightarrow> ITDBuilder" where
  "ITDBuilder_add b t = b\<lparr>b_trajs := dict_set (b_trajs b) t (dd_get 0 (b_trajs b) t + 1)\<rparr>"

record ITD =
  ITD_uid :: int
  ITD_ts :: "Trajectory list"
  ITD_t2idx :: "(Trajectory, nat) dict"
  ITD_t2cnt :: "(Trajectory, int) dict"

definition ITD_init_step :: "nat \<times> Trajectory \<times> int \<Rightarrow> ITD \<Rightarrow> ITD" where
  "ITD_init_step = (\<lambda>(idx, traj, cnt) self.
     self\<lparr>ITD_ts := ITD_ts self @ [traj],
          ITD_t2idx := dict_set (ITD_t2idx self) traj idx,
          ITD_t2cnt := dict_set (ITD_t2cnt self) traj cnt\<rparr>)"

text \<open>The constructor; its second argument \<open>traj_freq\<close> is not used by the source.\<close>

definition ITD_init :: "ITDBuilder \<Rightarrow> (Trajectory, int) dict \<Rightarrow> ITD" where
  "ITD_init builder traj_freq =
     fold ITD_init_step (enumerate 0 (b_trajs builder))
       \<lparr>ITD_uid = b_uid builder, ITD_ts = [], ITD_t2idx = [], ITD_t2cnt = []\<rparr>"

definition trajectories :: "ITD \<Rightarrow> Trajectory list" where
  "trajectories self = ITD_ts self"

definition ITD_id :: "ITD \<Rightarrow> Trajectory \<Rightarrow> nat result" where
  "ITD_id self t =
     (if \<not> dict_has (ITD_t2idx self) t then Inl Exception
      else dict_get (ITD_t2idx self) t)"

definition ITD_count :: "ITD \<Rightarrow> Trajectory \<Rightarrow> int result" where
  "ITD_count self t =
     (if dict_has (ITD_t2cnt self) t then dict_get (ITD_t2cnt self) t else Inr 0)"

definition ITD_contains :: "ITD \<Rightarrow> Trajectory \<Rightarrow> bool" where
  "ITD_contains self t = (t \<in> set (ITD_ts self))"

section \<open>Risk and relations (\<^verbatim>\<open>algo.py\<close>)\<close>

text \<open>
  \<^verbatim>\<open>return cnt / sum(itd.count(traj) for _, itd in itds.items())\<close>: true division
  of two integers, which raises when the divisor is 0.
\<close>

definition risk :: "int \<Rightarrow> Trajectory \<Rightarrow> (int, ITD) dict \<Rightarrow> real result" where
  "risk cnt traj itds =
     ebind (emap (\<lambda>(_, itd). ITD_count itd traj) itds) (\<lambda>cs.
       if sum_list cs = 0 then Inl ZeroDivisionError
       else Inr (real_of_int cnt / real_of_int (sum_list cs)))"

text \<open>
  \<open>t2uid\<close> groups the users by riskiest trajectory; every group of more than one user
  gives each of its members the list of the others.
\<close>

definition t2uid_step ::
    "int \<times> Trajectory \<Rightarrow> (Trajectory, int set) dict \<Rightarrow> (Trajectory, int set) dict" where
  "t2uid_step = (\<lambda>(uid, t) t2uid. dict_set t2uid t (insert uid (dd_get {} t2uid t)))"

definition group_step ::
    "(int set \<Rightarrow> int list) \<Rightarrow> Trajectory \<times> int set \<Rightarrow> (int, int list) dict \<Rightarrow>
     (int, int list) dict" where
  "group_step so = (\<lambda>(t, uids) relations.
     if card uids > 1
     then fold (\<lambda>uid relations. dict_set relations uid (so (uids - {uid}))) (so uids) relations
     else relations)"

definition find_strong_relations ::
    "(int set \<Rightarrow> int list) \<Rightarrow> (int, Trajectory) dict \<Rightarrow> (int, int list) dict" where
  "find_strong_relations so riskest =
     (let t2uid = fold t2uid_step riskest []
      in fold (group_step so) t2uid [])"

text \<open>
  The condition of the inner loop of \<^verbatim>\<open>_find_weak_relations\<close>, evaluated from
  left to right as Python's \<^verbatim>\<open>and\<close> does.
\<close>

definition weak_cond ::
    "(int, Trajectory) dict \<Rightarrow> (int, ITD) dict \<Rightarrow> (int, int list) dict \<Rightarrow> int \<Rightarrow> int \<Rightarrow>
     bool result" where
  "weak_cond riskest itds strong_relations uid1 uid2 =
     (if uid1 \<noteq> uid2 \<and> dict_has riskest uid1
      then ebind (dict_get riskest uid1) (\<lambda>t.
           ebind (dict_get itds uid2) (\<lambda>itd2.
             Inr (t \<in> set (trajectories itd2) \<and>
                  uid2 \<notin> set (dd_get [] strong_relations uid1))))
      else Inr False)"

definition weak_step ::
    "(int, Trajectory) dict \<Rightarrow> (int, ITD) dict \<Rightarrow> (int, int list) dict \<Rightarrow> int \<Rightarrow> int \<Rightarrow>
     (int, int list) dict \<Rightarrow> (int, int list) dict result" where
  "weak_step riskest itds strong_relations uid1 uid2 weak =
     ebind (weak_cond riskest itds strong_relations uid1 uid2) (\<lambda>c.
       Inr (if c then dict_set weak uid1 (dd_get [] weak uid1 @ [uid2]) else weak))"

definition find_weak_relations ::
    "(int set \<Rightarrow> int list) \<Rightarrow> (int, Trajectory) dict \<Rightarrow> (int, ITD) dict \<Rightarrow>
     (int, int list) dict \<Rightarrow> (int, int list) dict result" where
  "find_weak_relations so riskest itds strong_relations =
     (let strong_relations =
            (if strong_relations = [] then find_strong_relations so riskest
             else strong_relations)
      in efold (\<lambda>uid1. efold (weak_step riskest itds strong_relations uid1) (dict_keys itds))
           (dict_keys itds) [])"

text \<open>\<^verbatim>\<open>affected[v] += k,\<close> reads \<open>affected[v]\<close>, which raises for a missing key.\<close>

definition affected_add ::
    "int \<Rightarrow> int \<Rightarrow> (int, int list) dict \<Rightarrow> (int, int list) dict result" where
  "affected_add k v affected =
     ebind (dict_get affected v) (\<lambda>l. Inr (dict_set affected v (l @ [k])))"

definition affected_loop ::
    "(int, int list) dict \<Rightarrow> (int, int list) dict \<Rightarrow> (int, int list) dict result" where
  "affected_loop relations affected =
     efold (\<lambda>(k, v_list). efold (affected_add k) v_list) relations affected"

definition affected_by ::
    "(int set \<Rightarrow> int list) \<Rightarrow> (int, Trajectory) dict \<Rightarrow> (int, ITD) dict \<Rightarrow>
     (int, int list) dict result" where
  "affected_by so riskest itds =
     (let affected = dict_of (map (\<lambda>uid. (uid, [uid])) (dict_keys itds));
          strong_relations = find_strong_relations so riskest
      in ebind (affected_loop strong_relations affected) (\<lambda>affected.
         ebind (find_weak_relations so riskest itds strong_relations) (\<lambda>weak_relations.
           affected_loop weak_relations affected)))"

text \<open>
  What the model asks of the iteration order of a set: it lists every element of a finite
  set once.
\<close>

definition set_order :: "(int set \<Rightarrow> int list) \<Rightarrow> bool" where
  "set_order so \<longleftrightarrow> (\<forall>S. finite S \<longrightarrow> set (so S) = S \<and> distinct (so S))"

section \<open>The bound solver (\<^verbatim>\<open>compute_CIDP\<close>)\<close>

text \<open>
  The matrices are lists of rows. Every index the solver uses is either a loop index below
  \<open>n\<close> or a value of \<open>uid2idx\<close>, which is a position in the sorted list of the \<open>n\<close>
  keys (lemma \<open>uid2idx_range\<close>), so no access leaves the matrix.
\<close>

type_synonym matrix = "real list list"

definition mat_get :: "matrix \<Rightarrow> nat \<Rightarrow> nat \<Rightarrow> real" where
  "mat_get m i j = m ! i ! j"

definition mat_set :: "matrix \<Rightarrow> nat \<Rightarrow> nat \<Rightarrow> real \<Rightarrow> matrix" where
  "mat_set m i j v = m[i := (m ! i)[j := v]]"

text \<open>The body of \<^verbatim>\<open>for uid_j in strong_relations[idx2uid[i]]\<close>.\<close>

definition strong_update ::
    "(nat, int) dict \<Rightarrow> (int, nat) dict \<Rightarrow> (int, real) dict \<Rightarrow> nat \<Rightarrow> int \<Rightarrow>
     matrix \<times> matrix \<Rightarrow> (matrix \<times> matrix) result" where
  "strong_update idx2uid uid2idx epsl i uid_j = (\<lambda>(mat_L, mat_R).
     ebind (dict_get uid2idx uid_j) (\<lambda>j.
       let mat_L = mat_set mat_L i i (mat_get mat_L i i + 1 / 2);
           mat_L = mat_set mat_L j j (mat_get mat_L j j + 1 / 2);
           mat_L = mat_set mat_L i j (- 1);
           mat_L = mat_set mat_L j i (- 1)
       in ebind (dict_get idx2uid i) (\<lambda>uid_i.
          ebind (dict_get epsl uid_i) (\<lambda>e_i.
            let mat_R = mat_set mat_R i j (- e_i)
            in ebind (dict_get idx2uid j) (\<lambda>uid_j.
               ebind (dict_get epsl uid_j) (\<lambda>e_j.
                 Inr (mat_L, mat_set mat_R j i (- e_j))))))))"

text \<open>The body of \<^verbatim>\<open>for uid_j in weak_relations[idx2uid[i]]\<close>.\<close>

definition weak_update ::
    "(nat, int) dict \<Rightarrow> (int, nat) dict \<Rightarrow> (int, real) dict \<Rightarrow> real \<Rightarrow> nat \<Rightarrow> int \<Rightarrow>
     matrix \<times> matrix \<Rightarrow> (matrix \<times> matrix) result" where
  "weak_update idx2uid uid2idx epsl theta i uid_j = (\<lambda>(mat_L, mat_R).
     ebind (dict_get uid2idx uid_j) (\<lambda>j.
       let mat_L = mat_set mat_L i i (mat_get mat_L i i + 1);
           mat_L = mat_set mat_L j j (mat_get mat_L j j + 1);
           mat_L = mat_set mat_L i j (- 1);
           mat_L = mat_set mat_L j i (- 1)
       in ebind (dict_get idx2uid i) (\<lambda>uid_i.
          ebind (dict_get epsl uid_i) (\<lambda>e_i.
            Inr (mat_L, mat_set (mat_set mat_R i j (- e_i * theta)) j i 0)))))"

definition row_update ::
    "(int, int list) dict \<Rightarrow> (int, int list) dict \<Rightarrow> (nat, int) dict \<Rightarrow> (int, nat) dict \<Rightarrow>
     (int, real) dict \<Rightarrow> real \<Rightarrow> nat \<Rightarrow> matrix \<times> matrix \<Rightarrow> (matrix \<times> matrix) result" where
  "row_update strong_relations weak_relations idx2uid uid2idx epsl theta i mats =
     ebind (dict_get idx2uid i) (\<lambda>uid_i.
     ebind (efold (strong_update idx2uid uid2idx epsl i) (dd_get [] strong_relations uid_i) mats)
       (\<lambda>mats.
     ebind (dict_get idx2uid i) (\<lambda>uid_i.
       efold (weak_update idx2uid uid2idx epsl theta i) (dd_get [] weak_relations uid_i) mats)))"

text \<open>\<^verbatim>\<open>if mat_L[i][i]: mat_R[i][i] = epsl[idx2uid[i]] / mat_L[i][i]\<close>\<close>

definition diag_update ::
    "(nat, int) dict \<Rightarrow> (int, real) dict \<Rightarrow> matrix \<Rightarrow> nat \<Rightarrow> matrix \<Rightarrow> matrix result" where
  "diag_update idx2uid epsl mat_L i mat_R =
     (if mat_get mat_L i i \<noteq> 0
      then ebind (dict_get idx2uid i) (\<lambda>uid_i.
           ebind (dict_get epsl uid_i) (\<lambda>e_i.
             Inr (mat_set mat_R i i (e_i / mat_get mat_L i i))))
      else Inr mat_R)"

text \<open>
  \<^verbatim>\<open>idx2uid = {i: uid for i, uid in enumerate(sorted(itds.keys()))}\<close> and
  \<^verbatim>\<open>uid2idx = {uid: i for i, uid in enumerate(sorted(itds.keys()))}\<close>
\<close>

definition idx2uid :: "(int, ITD) dict \<Rightarrow> (nat, int) dict" where
  "idx2uid itds = dict_of (enumerate 0 (sort (dict_keys itds)))"

definition uid2idx :: "(int, ITD) dict \<Rightarrow> (int, nat) dict" where
  "uid2idx itds = dict_of (map (\<lambda>(i, uid). (uid, i)) (enumerate 0 (sort (dict_keys itds))))"

text \<open>The initial \<^verbatim>\<open>mat_R\<close>: row \<open>i\<close> is \<open>n\<close> copies of \<^verbatim>\<open>-epsl[idx2uid[i]]\<close>.\<close>

definition initial_R :: "(int, ITD) dict \<Rightarrow> (int, real) dict \<Rightarrow> matrix result" where
  "initial_R itds epsl =
     emap (\<lambda>i. ebind (dict_get (idx2uid itds) i) (\<lambda>uid_i.
               ebind (dict_get epsl uid_i) (\<lambda>e_i. Inr (replicate (length itds) (- e_i)))))
       [0..<length itds]"

text \<open>The first \<^verbatim>\<open>for i in range(n)\<close> loop, over both matrices.\<close>

definition fill_relations ::
    "(int, int list) dict \<Rightarrow> (int, int list) dict \<Rightarrow> (int, ITD) dict \<Rightarrow> (int, real) dict \<Rightarrow>
     real \<Rightarrow> matrix \<times> matrix \<Rightarrow> (matrix \<times> matrix) result" where
  "fill_relations strong_relations weak_relations itds epsl theta mats =
     efold (row_update strong_relations weak_relations (idx2uid itds) (uid2idx itds) epsl theta)
       [0..<length itds] mats"

text \<open>The second \<^verbatim>\<open>for i in range(n)\<close> loop.\<close>

definition fill_diagonal ::
    "(int, ITD) dict \<Rightarrow> (int, real) dict \<Rightarrow> matrix \<Rightarrow> matrix \<Rightarrow> matrix result" where
  "fill_diagonal itds epsl mat_L mat_R =
     efold (diag_update (idx2uid itds) epsl mat_L) [0..<length itds] mat_R"

text \<open>
  \<^verbatim>\<open>{idx2uid[i]: sum(mat_L[i][j] * mat_R[j][i] for j in range(n)) for i in range(n)}\<close>
\<close>

definition disclosure :: "(int, ITD) dict \<Rightarrow> matrix \<Rightarrow> matrix \<Rightarrow> (int, real) dict result" where
  "disclosure itds mat_L mat_R =
     ebind (emap (\<lambda>i. ebind (dict_get (idx2uid itds) i) (\<lambda>uid_i.
                      Inr (uid_i, \<Sum>j\<leftarrow>[0..<length itds]. mat_get mat_L i j * mat_get mat_R j i)))
              [0..<length itds])
       (\<lambda>kvs. Inr (dict_of kvs))"

definition compute_CIDP ::
    "(int set \<Rightarrow> int list) \<Rightarrow> (int, ITD) dict \<Rightarrow> (int, Trajectory) dict \<Rightarrow> (int, real) dict \<Rightarrow>
     real \<Rightarrow> (int, real) dict result" where
  "compute_CIDP so itds riskest epsl theta =
     (let strong_relations = find_strong_relations so riskest
      in ebind (find_weak_relations so riskest itds strong_relations) (\<lambda>weak_relations.
         let n = length itds;
             mat_L = replicate n (replicate n 0)
         in ebind (initial_R itds epsl) (\<lambda>mat_R.
            ebind (fill_relations strong_relations weak_relations itds epsl theta (mat_L, mat_R))
              (\<lambda>(mat_L, mat_R).
            ebind (fill_diagonal itds epsl mat_L mat_R) (\<lambda>mat_R.
              disclosure itds mat_L mat_R)))))"

section \<open>The budget optimizer (\<^verbatim>\<open>compute_IDFA\<close>)\<close>

text \<open>\<^verbatim>\<open>epsl[uid_] += beta\<close> and \<^verbatim>\<open>epsl[uid_] -= beta\<close>\<close>

definition add_budget :: "real \<Rightarrow> int \<Rightarrow> (int, real) dict \<Rightarrow> (int, real) dict result" where
  "add_budget beta uid' epsl = ebind (dict_get epsl uid') (\<lambda>e. Inr (dict_set epsl uid' (e + beta)))"

definition sub_budget :: "real \<Rightarrow> int \<Rightarrow> (int, real) dict \<Rightarrow> (int, real) dict result" where
  "sub_budget beta uid' epsl = ebind (dict_get epsl uid') (\<lambda>e. Inr (dict_set epsl uid' (e - beta)))"

text \<open>
  The two \<^verbatim>\<open>while True\<close> loops. The result \<open>None\<close> stands for a loop that never
  reaches its \<^verbatim>\<open>break\<close>; \<open>Some (Inl e)\<close> for a raised error; \<open>Some (Inr (epsl, cidp))\<close>
  for the state at the \<^verbatim>\<open>break\<close>. \<^verbatim>\<open>compute_IDFA\<close> calls the solver with its default
  \<open>theta = 0.25\<close>.
\<close>

partial_function (option) increase_loop ::
    "(int set \<Rightarrow> int list) \<Rightarrow> (int, ITD) dict \<Rightarrow> (int, Trajectory) dict \<Rightarrow>
     (int, int list) dict \<Rightarrow> real \<Rightarrow> int \<Rightarrow> (int, real) dict \<Rightarrow>
     ((int, real) dict \<times> (int, real) dict) result option" where
  "increase_loop so itds riskest affected beta uid epsl =
     (case ebind (dict_get affected uid) (\<lambda>uids. efold (add_budget beta) uids epsl) of
        Inl e \<Rightarrow> Some (Inl e)
      | Inr epsl \<Rightarrow>
         (case compute_CIDP so itds riskest epsl (1 / 4) of
            Inl e \<Rightarrow> Some (Inl e)
          | Inr cidp \<Rightarrow>
             (case dict_get cidp uid of
                Inl e \<Rightarrow> Some (Inl e)
              | Inr c \<Rightarrow>
                 if c > 1 then Some (Inr (epsl, cidp))
                 else increase_loop so itds riskest affected beta uid epsl)))"

partial_function (option) decrease_loop ::
    "(int set \<Rightarrow> int list) \<Rightarrow> (int, ITD) dict \<Rightarrow> (int, Trajectory) dict \<Rightarrow>
     (int, int list) dict \<Rightarrow> real \<Rightarrow> int \<Rightarrow> (int, real) dict \<Rightarrow>
     ((int, real) dict \<times> (int, real) dict) result option" where
  "decrease_loop so itds riskest affected beta uid epsl =
     (case ebind (dict_get affected uid) (\<lambda>uids. efold (sub_budget beta) uids epsl) of
        Inl e \<Rightarrow> Some (Inl e)
      | Inr epsl \<Rightarrow>
         (case compute_CIDP so itds riskest epsl (1 / 4) of
            Inl e \<Rightarrow> Some (Inl e)
          | Inr cidp \<Rightarrow>
             (case dict_get cidp uid of
                Inl e \<Rightarrow> Some (Inl e)
              | Inr c \<Rightarrow>
                 if c \<le> 1 then Some (Inr (epsl, cidp))
                 else decrease_loop so itds riskest affected beta uid epsl)))"

declare increase_loop.simps [code]
declare decrease_loop.simps [code]

text \<open>The body of \<^verbatim>\<open>for uid in itds\<close>, on the pair of \<open>epsl\<close> and \<open>cidp\<close>.\<close>

definition optimize_user ::
    "(int set \<Rightarrow> int list) \<Rightarrow> (int, ITD) dict \<Rightarrow> (int, Trajectory) dict \<Rightarrow>
     (int, int list) dict \<Rightarrow> real \<Rightarrow> int \<Rightarrow> (int, real) dict \<times> (int, real) dict \<Rightarrow>
     ((int, real) dict \<times> (int, real) dict) result option" where
  "optimize_user so itds riskest affected beta uid = (\<lambda>(epsl, cidp).
     if \<not> dict_has riskest uid then Some (Inr (epsl, cidp))
     else
       (case dict_get epsl uid of
          Inl e \<Rightarrow> Some (Inl e)
        | Inr e_u \<Rightarrow>
           (case dict_get cidp uid of
              Inl e \<Rightarrow> Some (Inl e)
            | Inr c \<Rightarrow>
               if e_u < c \<and> c \<le> 1 then increase_loop so itds riskest affected beta uid epsl
               else if c > 1 then decrease_loop so itds riskest affected beta uid epsl
               else Some (Inr (epsl, cidp)))))"

text \<open>A \<^verbatim>\<open>for\<close> loop whose body may raise or may not return.\<close>

fun ofold :: "('a \<Rightarrow> 's \<Rightarrow> 's result option) \<Rightarrow> 'a list \<Rightarrow> 's \<Rightarrow> 's result option" where
  "ofold f [] s = Some (Inr s)"
| "ofold f (x # xs) s =
     (case f x s of
        None \<Rightarrow> None
      | Some (Inl e) \<Rightarrow> Some (Inl e)
      | Some (Inr s') \<Rightarrow> ofold f xs s')"

definition compute_IDFA ::
    "(int set \<Rightarrow> int list) \<Rightarrow> (int, ITD) dict \<Rightarrow> (int, Trajectory) dict \<Rightarrow> real \<Rightarrow> real \<Rightarrow>
     (int, real) dict result option" where
  "compute_IDFA so itds riskest epsl_init beta =
     (let epsl = dict_of (map (\<lambda>uid. (uid, epsl_init)) (dict_keys itds))
      in case compute_CIDP so itds riskest epsl (1 / 4) of
           Inl e \<Rightarrow> Some (Inl e)
         | Inr cidp \<Rightarrow>
            (case affected_by so riskest itds of
               Inl e \<Rightarrow> Some (Inl e)
             | Inr affected \<Rightarrow>
                (case ofold (optimize_user so itds riskest affected beta) (dict_keys itds)
                        (epsl, cidp) of
                   None \<Rightarrow> None
                 | Some (Inl e) \<Rightarrow> Some (Inl e)
                 | Some (Inr (epsl, cidp)) \<Rightarrow> Some (Inr epsl))))"

section \<open>The sanitizer (\<^verbatim>\<open>sanitize\<close>)\<close>

text \<open>
  Of the messages that \<^verbatim>\<open>sanitize\<close> and the optimizer hand to the logger at level
  \<^verbatim>\<open>info\<close>, the model records two: the one that opens a round and the one that opens
  \<^verbatim>\<open>compute_IDFA\<close>.
\<close>

datatype log_event = LogIteration int | LogComputingIDFA

text \<open>The value a Python function hands back: \<^verbatim>\<open>None\<close> or a value.\<close>

datatype 'a pyopt = PyNone | PyValue 'a

type_synonym noise_table = "(int, (Trajectory, real) dict) dict"

text \<open>
  The local variables of \<^verbatim>\<open>sanitize\<close> that live across rounds, the number of draws
  taken from the random generator so far, and the log.
\<close>

record sanitize_state =
  st_risky :: "(int, Trajectory list) dict"
  st_noise_scale :: "(int, real list) dict"
  st_draws :: nat
  st_log :: "log_event list"

text \<open>How the body of the \<^verbatim>\<open>for round_ in range(1, max_round)\<close> loop ends.\<close>

datatype round_exit =
  Break sanitize_state | Return sanitize_state noise_table | Continue sanitize_state

text \<open>
  \<^verbatim>\<open>tv = [(t, _risk(itd.count(t), t, itds)) for t in itd.trajectories]\<close> and
  \<^verbatim>\<open>[t for t, v in sorted(tv, key=lambda x: x[1]) if v >= p]\<close>; both sorts are stable.
\<close>

definition risky_of :: "(int, ITD) dict \<Rightarrow> real \<Rightarrow> ITD \<Rightarrow> Trajectory list result" where
  "risky_of itds p itd =
     ebind (emap (\<lambda>t. ebind (ITD_count itd t) (\<lambda>c.
                       ebind (risk c t itds) (\<lambda>v. Inr (t, v))))
              (trajectories itd))
       (\<lambda>tv. Inr (map fst (filter (\<lambda>(t, v). v \<ge> p) (sort_key snd tv))))"

definition initial_risky :: "(int, ITD) dict \<Rightarrow> real \<Rightarrow> (int, Trajectory list) dict result" where
  "initial_risky itds p =
     efold (\<lambda>(uid, itd) risky. ebind (risky_of itds p itd) (\<lambda>l. Inr (dict_set risky uid l)))
       itds []"

text \<open>
  One element of \<^verbatim>\<open>{uid: risky[uid].pop() for uid in itds if risky[uid]}\<close>:
  \<^verbatim>\<open>pop()\<close> takes the last element of the list away.
\<close>

definition pop_riskest ::
    "int \<Rightarrow> (int, Trajectory) dict \<times> (int, Trajectory list) dict \<Rightarrow>
     ((int, Trajectory) dict \<times> (int, Trajectory list) dict) result" where
  "pop_riskest uid = (\<lambda>(riskest, risky).
     ebind (dict_get risky uid) (\<lambda>l.
       if l \<noteq> [] then Inr (dict_set riskest uid (last l), dict_set risky uid (butlast l))
       else Inr (riskest, risky)))"

text \<open>
  \<^verbatim>\<open>while True: v = _risk(cnt, riskest[uid], itds); if v < p: break; cnt -= 1\<close>
\<close>

partial_function (option) reduce_count ::
    "(int, ITD) dict \<Rightarrow> real \<Rightarrow> Trajectory \<Rightarrow> int \<Rightarrow> int result option" where
  "reduce_count itds p t cnt =
     (case risk cnt t itds of
        Inl e \<Rightarrow> Some (Inl e)
      | Inr v \<Rightarrow> if v < p then Some (Inr cnt) else reduce_count itds p t (cnt - 1))"

declare reduce_count.simps [code]

text \<open>
  The body of the loop that derives the noise scales; \<^verbatim>\<open>loops / epsl_opt[uid]\<close> raises
  when the budget is 0.
\<close>

definition scale_user ::
    "(int, ITD) dict \<Rightarrow> real \<Rightarrow> (int, Trajectory) dict \<Rightarrow> (int, real) dict \<Rightarrow> int \<times> ITD \<Rightarrow>
     (int, real list) dict \<Rightarrow> (int, real list) dict result option" where
  "scale_user itds p riskest epsl_opt = (\<lambda>(uid, itd) noise_scale.
     if dict_has riskest uid
     then
       (case ebind (dict_get riskest uid) (\<lambda>t.
               ebind (ITD_count itd t) (\<lambda>cnt. Inr (t, cnt))) of
          Inl e \<Rightarrow> Some (Inl e)
        | Inr (t, cnt) \<Rightarrow>
           (case reduce_count itds p t cnt of
              None \<Rightarrow> None
            | Some (Inl e) \<Rightarrow> Some (Inl e)
            | Some (Inr cnt) \<Rightarrow>
               Some (ebind (ITD_count itd t) (\<lambda>c.
                     let loops = c - cnt
                     in ebind (dict_get epsl_opt uid) (\<lambda>e.
                        if e = 0 then Inl ZeroDivisionError
                        else ebind (dict_get noise_scale uid) (\<lambda>l.
                               Inr (dict_set noise_scale uid (l @ [real_of_int loops / e]))))))))
     else Some (Inr noise_scale))"

text \<open>
  \<^verbatim>\<open>np.random.laplace(0, scale, 1)\<close>: the generator is a parameter \<open>rng\<close> that gives
  the \<open>k\<close>-th draw for a scale; numpy raises \<^verbatim>\<open>ValueError\<close> for a negative scale. The
  one-element array that numpy hands back is modelled as its element.
\<close>

definition add_noise :: "(nat \<Rightarrow> real \<Rightarrow> real) \<Rightarrow> real \<Rightarrow> real \<times> nat \<Rightarrow> (real \<times> nat) result" where
  "add_noise rng scale = (\<lambda>(x, k).
     if scale < 0 then Inl ValueError else Inr (x + rng k scale, Suc k))"

definition noise_user ::
    "(nat \<Rightarrow> real \<Rightarrow> real) \<Rightarrow> (int, real list) dict \<Rightarrow> int \<times> ITD \<Rightarrow> noise_table \<times> nat \<Rightarrow>
     (noise_table \<times> nat) result" where
  "noise_user rng noise_scale = (\<lambda>(uid, itd).
     efold (\<lambda>t (noise_count, k).
        ebind (ITD_count itd t) (\<lambda>c.
        ebind (dict_get noise_scale uid) (\<lambda>scales.
        ebind (efold (add_noise rng) scales (real_of_int c, k)) (\<lambda>(x, k).
        ebind (dict_get noise_count uid) (\<lambda>row.
          Inr (dict_set noise_count uid (dict_set row t x), k))))))
       (trajectories itd))"

text \<open>
  One round. \<^verbatim>\<open>sanitize\<close> calls the optimizer with its defaults
  \<open>epsl_init = 0.1\<close> and \<open>beta = 0.05\<close>. The body ends with
  \<^verbatim>\<open>return noise_count\<close>, inside the loop.
\<close>

definition sanitize_round ::
    "(nat \<Rightarrow> real \<Rightarrow> real) \<Rightarrow> (int set \<Rightarrow> int list) \<Rightarrow> (int, ITD) dict \<Rightarrow> real \<Rightarrow> int \<Rightarrow>
     sanitize_state \<Rightarrow> round_exit result option" where
  "sanitize_round rng so itds p rnd st =
     (let st = st\<lparr>st_log := st_log st @ [LogIteration rnd]\<rparr>
      in case efold pop_riskest (dict_keys itds) ([], st_risky st) of
           Inl e \<Rightarrow> Some (Inl e)
         | Inr (riskest, risky) \<Rightarrow>
            (let st = st\<lparr>st_risky := risky\<rparr>
             in if riskest = [] then Some (Inr (Break st))
                else
                  (let st = st\<lparr>st_log := st_log st @ [LogComputingIDFA]\<rparr>
                   in case compute_IDFA so itds riskest (1 / 10) (1 / 20) of
                        None \<Rightarrow> None
                      | Some (Inl e) \<Rightarrow> Some (Inl e)
                      | Some (Inr epsl_opt) \<Rightarrow>
                         (case ofold (scale_user itds p riskest epsl_opt) itds
                                 (st_noise_scale st) of
                            None \<Rightarrow> None
                          | Some (Inl e) \<Rightarrow> Some (Inl e)
                          | Some (Inr noise_scale) \<Rightarrow>
                             (case efold (noise_user rng noise_scale) itds
                                     (dict_of (map (\<lambda>uid. (uid, [])) (dict_keys itds)),
                                      st_draws st) of
                                Inl e \<Rightarrow> Some (Inl e)
                              | Inr (noise_count, k) \<Rightarrow>
                                 Some (Inr (Return
                                   (st\<lparr>st_noise_scale := noise_scale, st_draws := k\<rparr>)
                                   noise_count)))))))"

text \<open>
  The loop over the rounds. A body that ends in \<^verbatim>\<open>break\<close>, or a loop that runs out of
  rounds, leaves the function at its end, which returns \<^verbatim>\<open>None\<close>.
\<close>

fun sanitize_loop ::
    "(int \<Rightarrow> sanitize_state \<Rightarrow> round_exit result option) \<Rightarrow> int list \<Rightarrow> sanitize_state \<Rightarrow>
     (sanitize_state \<times> noise_table pyopt) result option" where
  "sanitize_loop body [] st = Some (Inr (st, PyNone))"
| "sanitize_loop body (r # rs) st =
     (case body r st of
        None \<Rightarrow> None
      | Some (Inl e) \<Rightarrow> Some (Inl e)
      | Some (Inr (Break st')) \<Rightarrow> Some (Inr (st', PyNone))
      | Some (Inr (Return st' noise_count)) \<Rightarrow> Some (Inr (st', PyValue noise_count))
      | Some (Inr (Continue st')) \<Rightarrow> sanitize_loop body rs st')"

text \<open>
  \<^verbatim>\<open>sanitize\<close>; the result holds the final values of the local variables and the
  returned value.
\<close>

definition sanitize ::
    "(nat \<Rightarrow> real \<Rightarrow> real) \<Rightarrow> (int set \<Rightarrow> int list) \<Rightarrow> (int, ITD) dict \<Rightarrow> real \<Rightarrow> int \<Rightarrow>
     (sanitize_state \<times> noise_table pyopt) result option" where
  "sanitize rng so itds p max_round =
     (let noise_scale = dict_of (map (\<lambda>uid. (uid, [])) (dict_keys itds))
      in case initial_risky itds p of
           Inl e \<Rightarrow> Some (Inl e)
         | Inr risky \<Rightarrow>
            sanitize_loop (sanitize_round rng so itds p) [1..max_round - 1]
              \<lparr>st_risky = risky, st_noise_scale = noise_scale, st_draws = 0, st_log = []\<rparr>)"

section \<open>Predicates used by the theorems\<close>

text \<open>What the constructor establishes: both dictionaries have the trajectories as keys, and
  the local id of a trajectory is its position.\<close>

definition ITD_inv :: "ITD \<Rightarrow> bool" where
  "ITD_inv self \<longleftrightarrow>
     set (dict_keys (ITD_t2idx self)) = set (ITD_ts self) \<and>
     set (dict_keys (ITD_t2cnt self)) = set (ITD_ts self) \<and>
     (\<forall>t i. map_of (ITD_t2idx self) t = Some i \<longrightarrow>
        i < length (ITD_ts self) \<and> ITD_ts self ! i = t)"

text \<open>The users whose riskiest trajectory is \<open>t\<close>.\<close>

definition peers :: "(int, Trajectory) dict \<Rightarrow> Trajectory \<Rightarrow> int set" where
  "peers riskest t = {uid. (uid, t) \<in> set riskest}"

text \<open>The test of the loop of \<^verbatim>\<open>_find_weak_relations\<close> as a predicate.\<close>

definition weak_rel ::
    "(int, Trajectory) dict \<Rightarrow> (int, ITD) dict \<Rightarrow> (int, int list) dict \<Rightarrow> int \<Rightarrow> int \<Rightarrow> bool" where
  "weak_rel riskest itds strong_relations uid1 uid2 \<longleftrightarrow>
     uid1 \<noteq> uid2 \<and>
     (\<exists>t itd2. map_of riskest uid1 = Some t \<and> map_of itds uid2 = Some itd2 \<and>
        t \<in> set (trajectories itd2) \<and> uid2 \<notin> set (dd_get [] strong_relations uid1))"

text \<open>The count of a trajectory as a number, and the population-wide count
  \<open>\<Sum>\<^sub>u population[u].count(t)\<close>.\<close>

definition count_value :: "ITD \<Rightarrow> Trajectory \<Rightarrow> int" where
  "count_value itd t = (case ITD_count itd t of Inr c \<Rightarrow> c | Inl _ \<Rightarrow> 0)"

definition population_count :: "(int, ITD) dict \<Rightarrow> Trajectory \<Rightarrow> int" where
  "population_count itds t = (\<Sum>(u, itd)\<leftarrow>itds. count_value itd t)"

text \<open>A population handed over by the ingestion layer stores no negative count.\<close>

definition counts_nonneg :: "(int, ITD) dict \<Rightarrow> bool" where
  "counts_nonneg itds \<longleftrightarrow> (\<forall>(u, itd) \<in> set itds. \<forall>(t, c) \<in> set (ITD_t2cnt itd). 0 \<le> c)"

text \<open>An \<open>n \<times> n\<close> matrix: \<open>n\<close> rows of length \<open>n\<close>.\<close>

definition wf_mat :: "nat \<Rightarrow> matrix \<Rightarrow> bool" where
  "wf_mat n m \<longleftrightarrow> length m = n \<and> (\<forall>row \<in> set m. length row = n)"

text \<open>\<^verbatim>\<open>sorted(itds.keys())\<close>, the order in which users are given matrix indices.\<close>

definition sorted_uids :: "(int, ITD) dict \<Rightarrow> int list" where
  "sorted_uids itds = sort (dict_keys itds)"

text \<open>The four assignments to \<^verbatim>\<open>mat_L\<close> that a relation between rows \<open>i\<close> and \<open>j\<close>
  makes: \<^verbatim>\<open>mat_L[i][i] += w; mat_L[j][j] += w; mat_L[i][j] = mat_L[j][i] = -1\<close>.\<close>

definition link :: "matrix \<Rightarrow> nat \<Rightarrow> nat \<Rightarrow> real \<Rightarrow> matrix" where
  "link mat_L i j w =
     (let mat_L = mat_set mat_L i i (mat_get mat_L i i + w);
          mat_L = mat_set mat_L j j (mat_get mat_L j j + w);
          mat_L = mat_set mat_L i j (- 1)
      in mat_set mat_L j i (- 1))"

text \<open>A user without relations: no strong or weak relation of their own, and a member of nobody
  else's relation list.\<close>

definition isolated ::
    "(int set \<Rightarrow> int list) \<Rightarrow> (int, ITD) dict \<Rightarrow> (int, Trajectory) dict \<Rightarrow> int \<Rightarrow> bool" where
  "isolated so itds riskest u =
     (let strong_relations = find_strong_relations so riskest
      in case find_weak_relations so riskest itds strong_relations of
           Inl e \<Rightarrow> False
         | Inr weak_relations \<Rightarrow>
             dd_get [] strong_relations u = [] \<and> dd_get [] weak_relations u = [] \<and>
             (\<forall>(k, l) \<in> set strong_relations. u \<notin> set l) \<and>
             (\<forall>(k, l) \<in> set weak_relations. u \<notin> set l))"

text \<open>One budget vector is pointwise below another, on the keys they share.\<close>

definition budget_le :: "(int, real) dict \<Rightarrow> (int, real) dict \<Rightarrow> bool" where
  "budget_le epsl epsl' \<longleftrightarrow>
     (\<forall>k e e'. map_of epsl k = Some e \<and> map_of epsl' k = Some e' \<longrightarrow> e \<le> e')"

text \<open>What the relation loop keeps true of \<^verbatim>\<open>mat_L\<close>: the diagonal is not negative, the rest
  is not positive, and a row with a nonzero entry has a positive diagonal entry.\<close>

definition degree_matrix :: "nat \<Rightarrow> matrix \<Rightarrow> bool" where
  "degree_matrix n m \<longleftrightarrow>
     wf_mat n m \<and>
     (\<forall>a<n. 0 \<le> mat_get m a a) \<and>
     (\<forall>a<n. \<forall>b<n. a \<noteq> b \<longrightarrow> mat_get m a b \<le> 0) \<and>
     (\<forall>a<n. \<forall>b<n. mat_get m a b \<noteq> 0 \<longrightarrow> 0 < mat_get m a a)"

text \<open>A successful call of \<^verbatim>\<open>compute_CIDP\<close> together with its intermediate values:
  \<^verbatim>\<open>mat_L\<close> and \<^verbatim>\<open>mat_R\<close> after the relation loop, \<^verbatim>\<open>mat_R\<close> after the diagonal loop, and
  the result.\<close>

definition solver_run ::
    "(int set \<Rightarrow> int list) \<Rightarrow> (int, ITD) dict \<Rightarrow> (int, Trajectory) dict \<Rightarrow> (int, real) dict \<Rightarrow>
     real \<Rightarrow> matrix \<Rightarrow> matrix \<Rightarrow> matrix \<Rightarrow> (int, real) dict \<Rightarrow> bool" where
  "solver_run so itds riskest epsl theta mat_L mat_R mat_R' cidp \<longleftrightarrow>
     (\<exists>weak R0.
        find_weak_relations so riskest itds (find_strong_relations so riskest) = Inr weak \<and>
        initial_R itds epsl = Inr R0 \<and>
        fill_relations (find_strong_relations so riskest) weak itds epsl theta
          (replicate (length itds) (replicate (length itds) 0), R0) = Inr (mat_L, mat_R) \<and>
        fill_diagonal itds epsl mat_L mat_R = Inr mat_R' \<and>
        disclosure itds mat_L mat_R' = Inr cidp)"

text \<open>The relation between the matrices of two calls that differ in the budget vector only:
  the same \<^verbatim>\<open>mat_L\<close>, and \<^verbatim>\<open>mat_R\<close> entries ordered against the budgets.\<close>

definition runs_rel ::
    "nat \<Rightarrow> (int, real) dict \<Rightarrow> (int, real) dict \<Rightarrow> matrix \<times> matrix \<Rightarrow> matrix \<times> matrix \<Rightarrow> bool" where
  "runs_rel n epsl epsl' = (\<lambda>(L, R) (L', R').
     L' = L \<and> degree_matrix n L \<and> wf_mat n R \<and> wf_mat n R' \<and>
     (budget_le epsl epsl' \<longrightarrow> (\<forall>a<n. \<forall>b<n. mat_get R' a b \<le> mat_get R a b)))"

text \<open>A successful call of the solver at the default \<open>theta = 0.25\<close>, as the optimizer
  makes it, with its \<^verbatim>\<open>mat_L\<close>.\<close>

definition run_at ::
    "(int set \<Rightarrow> int list) \<Rightarrow> (int, ITD) dict \<Rightarrow> (int, Trajectory) dict \<Rightarrow> matrix \<Rightarrow>
     (int, real) dict \<Rightarrow> (int, real) dict \<Rightarrow> bool" where
  "run_at so itds riskest mat_L epsl cidp \<longleftrightarrow>
     (\<exists>mat_R mat_R'. solver_run so itds riskest epsl (1 / 4) mat_L mat_R mat_R' cidp)"

text \<open>The state of the optimizer between two users: \<^verbatim>\<open>cidp\<close> is the solver's result
  for \<^verbatim>\<open>epsl\<close>, and users without relations have a budget that is not negative.\<close>

definition budgets_ok ::
    "(int set \<Rightarrow> int list) \<Rightarrow> (int, ITD) dict \<Rightarrow> (int, Trajectory) dict \<Rightarrow> matrix \<Rightarrow>
     (int, real) dict \<times> (int, real) dict \<Rightarrow> bool" where
  "budgets_ok so itds riskest mat_L = (\<lambda>(epsl, cidp).
     run_at so itds riskest mat_L epsl cidp \<and>
     (\<forall>i < length itds. mat_get mat_L i i = 0 \<longrightarrow> 0 \<le> dd_get 0 epsl (sorted_uids itds ! i)))"

text \<open>No trajectory of any user has a risk at or above the threshold \<open>p\<close> (and every risk
  is defined).\<close>

definition no_risky :: "(int, ITD) dict \<Rightarrow> real \<Rightarrow> bool" where
  "no_risky itds p \<longleftrightarrow>
     (\<forall>(uid, itd) \<in> set itds. \<forall>t \<in> set (trajectories itd).
        case risk (count_value itd t) t itds of Inr v \<Rightarrow> v < p | Inl e \<Rightarrow> False)"

text \<open>Both matrices of the relation loop are \<open>n \<times> n\<close>.\<close>

definition wf_mats :: "nat \<Rightarrow> matrix \<times> matrix \<Rightarrow> bool" where
  "wf_mats n s \<longleftrightarrow> wf_mat n (fst s) \<and> wf_mat n (snd s)"

section \<open>Example data\<close>

text \<open>
  A population of two users: user 1 travelled \<open>(1, 2, 3)\<close> five times and
  \<open>(4, 5, 6)\<close> once, user 2 travelled \<open>(1, 2, 3)\<close> five times. The riskiest
  trajectory of both is \<open>(1, 2, 3)\<close>.
\<close>

definition example_A :: ITD where
  "example_A =
     ITD_init \<lparr>b_uid = 1, b_trajs = [(Trajectory [1, 2, 3], 5), (Trajectory [4, 5, 6], 1)]\<rparr> []"

definition example_B :: ITD where
  "example_B = ITD_init \<lparr>b_uid = 2, b_trajs = [(Trajectory [1, 2, 3], 5)]\<rparr> []"

definition example_itds :: "(int, ITD) dict" where
  "example_itds = [(1, example_A), (2, example_B)]"

definition example_riskest :: "(int, Trajectory) dict" where
  "example_riskest = [(1, Trajectory [1, 2, 3]), (2, Trajectory [1, 2, 3])]"

definition example_epsl :: "(int, real) dict" where
  "example_epsl = [(1, 1 / 10), (2, 1 / 10)]"

definition example_solo :: "(int, ITD) dict" where
  "example_solo = [(1, example_A)]"

definition example_solo_riskest :: "(int, Trajectory) dict" where
  "example_solo_riskest = [(1, Trajectory [1, 2, 3])]"

definition example_solo_epsl :: "(int, real) dict" where
  "example_solo_epsl = [(1, 1 / 10)]"

text \<open>One user with two trajectories that nobody else has, and a generator for the draws.\<close>

definition example_two :: "(int, ITD) dict" where
  "example_two =
     [(1, ITD_init \<lparr>b_uid = 1,
                    b_trajs = [(Trajectory [1, 2, 3], 1), (Trajectory [4, 5, 6], 1)]\<rparr> [])]"

definition example_rng :: "nat \<Rightarrow> real \<Rightarrow> real" where
  "example_rng k scale = (if even k then scale else - scale)"

text \<open>Three users with the same riskiest trajectory, and a second iteration order of sets
  (descending instead of ascending).\<close>

definition example_rev_order :: "int set \<Rightarrow> int list" where
  "example_rev_order S = rev (sorted_list_of_set S)"

definition example_trio :: "(int, ITD) dict" where
  "example_trio =
     [(1, example_A), (2, example_B),
      (3, ITD_init \<lparr>b_uid = 3, b_trajs = [(Trajectory [1, 2, 3], 2)]\<rparr> [])]"

definition example_trio_riskest :: "(int, Trajectory) dict" where
  "example_trio_riskest =
     [(1, Trajectory [1, 2, 3]), (2, Trajectory [1, 2, 3]), (3, Trajectory [1, 2, 3])]"

definition example_trio_epsl :: "(int, real) dict" where
  "example_trio_epsl = [(1, 1 / 10), (2, 2 / 10), (3, 3 / 10)]"

section \<open>Facts about dictionaries and the error monad\<close>

lemma ebind_Inr [simp]: "ebind (Inr x) f = f x"
  by (simp add: ebind_def)

lemma ebind_Inl [simp]: "ebind (Inl e) f = Inl e"
  by (simp add: ebind_def)

lemma ebind_eq_Inr: "ebind m f = Inr y \<longleftrightarrow> (\<exists>x. m = Inr x \<and> f x = Inr y)"
  by (cases m) simp_all

lemma dict_has_iff: "dict_has d k \<longleftrightarrow> map_of d k \<noteq> None"
  by (simp add: dict_has_def dict_keys_def map_of_eq_None_iff)

lemma dict_get_eq_Inr: "dict_get d k = Inr v \<longleftrightarrow> map_of d k = Some v"
  by (simp add: dict_get_def split: option.splits)

lemma dict_get_eq_Inl: "dict_get d k = Inl e \<longleftrightarrow> map_of d k = None \<and> e = KeyError"
  by (auto simp: dict_get_def split: option.splits)

lemma dict_get_has: "dict_has d k \<Longrightarrow> \<exists>v. dict_get d k = Inr v"
  by (auto simp: dict_has_iff dict_get_def split: option.splits)

lemma map_of_dict_set: "map_of (dict_set d k v) = (map_of d)(k \<mapsto> v)"
  by (simp add: dict_set_def update_conv')

lemma keys_dict_set: "set (dict_keys (dict_set d k v)) = insert k (set (dict_keys d))"
  by (simp add: dict_set_def dict_keys_def dom_update)

section \<open>Lookups in an ITD\<close>

lemma ITD_init_step_inv:
  assumes inv: "ITD_inv self" and idx: "idx = length (ITD_ts self)"
  shows "ITD_inv (ITD_init_step (idx, traj, cnt) self)"
proof -
  let ?s = "ITD_init_step (idx, traj, cnt) self"
  have ts: "ITD_ts ?s = ITD_ts self @ [traj]"
    by (simp add: ITD_init_step_def)
  have m: "map_of (ITD_t2idx ?s) = (map_of (ITD_t2idx self))(traj \<mapsto> idx)"
    by (simp add: ITD_init_step_def map_of_dict_set)
  have k1: "set (dict_keys (ITD_t2idx ?s)) = set (ITD_ts ?s)"
    using inv by (simp add: ITD_init_step_def keys_dict_set ITD_inv_def)
  have k2: "set (dict_keys (ITD_t2cnt ?s)) = set (ITD_ts ?s)"
    using inv by (simp add: ITD_init_step_def keys_dict_set ITD_inv_def)
  have pos: "i < length (ITD_ts ?s) \<and> ITD_ts ?s ! i = t"
    if "map_of (ITD_t2idx ?s) t = Some i" for t i
  proof (cases "t = traj")
    case True
    with that m have "i = length (ITD_ts self)" by (simp add: idx)
    then show ?thesis using True by (simp add: ts)
  next
    case False
    with that m have "map_of (ITD_t2idx self) t = Some i" by simp
    with inv have "i < length (ITD_ts self) \<and> ITD_ts self ! i = t"
      by (simp add: ITD_inv_def)
    then show ?thesis by (simp add: ts nth_append)
  qed
  show ?thesis
    unfolding ITD_inv_def using k1 k2 pos by blast
qed

lemma ITD_init_step_length:
  "length (ITD_ts (ITD_init_step (idx, traj, cnt) self)) = Suc (length (ITD_ts self))"
  by (simp add: ITD_init_step_def)

lemma fold_ITD_init_step_inv:
  "ITD_inv self \<Longrightarrow> n = length (ITD_ts self) \<Longrightarrow>
   ITD_inv (fold ITD_init_step (enumerate n kvs) self)"
proof (induction kvs arbitrary: self n)
  case Nil
  then show ?case by simp
next
  case (Cons kv kvs)
  obtain traj cnt where kv: "kv = (traj, cnt)" by (cases kv)
  have "ITD_inv (ITD_init_step (n, traj, cnt) self)"
    using Cons.prems by (simp add: ITD_init_step_inv)
  moreover have "Suc n = length (ITD_ts (ITD_init_step (n, traj, cnt) self))"
    using Cons.prems by (simp add: ITD_init_step_length)
  ultimately show ?case
    using Cons.IH [of "ITD_init_step (n, traj, cnt) self" "Suc n"] by (simp add: kv)
qed

lemma ITD_init_inv: "ITD_inv (ITD_init builder traj_freq)"
  unfolding ITD_init_def
  by (rule fold_ITD_init_step_inv) (simp_all add: ITD_inv_def dict_keys_def)

lemma ITD_count_total: "\<exists>c. ITD_count self t = Inr c"
  by (auto simp: ITD_count_def dest: dict_get_has)

text \<open>
  C9. For an ITD made by the constructor and any trajectory \<open>t\<close>: \<open>ITD_id\<close> raises
  when \<open>t\<close> is not one of the ITD's trajectories and returns the stored local id (the
  position of \<open>t\<close> among the trajectories) when it is; \<open>ITD_count\<close> returns a number
  in every case, and that number is 0 when \<open>t\<close> is absent.
\<close>

theorem ITD_id_raises_count_defaults:
  "(t \<notin> set (trajectories (ITD_init builder traj_freq)) \<longrightarrow>
      ITD_id (ITD_init builder traj_freq) t = Inl Exception \<and>
      ITD_count (ITD_init builder traj_freq) t = Inr 0) \<and>
   (t \<in> set (trajectories (ITD_init builder traj_freq)) \<longrightarrow>
      (\<exists>i. ITD_id (ITD_init builder traj_freq) t = Inr i \<and>
           map_of (ITD_t2idx (ITD_init builder traj_freq)) t = Some i \<and>
           i < length (trajectories (ITD_init builder traj_freq)) \<and>
           trajectories (ITD_init builder traj_freq) ! i = t)) \<and>
   (\<exists>c. ITD_count (ITD_init builder traj_freq) t = Inr c)"
proof -
  let ?itd = "ITD_init builder traj_freq"
  have inv: "ITD_inv ?itd" by (rule ITD_init_inv)
  have absent: "ITD_id ?itd t = Inl Exception \<and> ITD_count ?itd t = Inr 0"
    if "t \<notin> set (trajectories ?itd)"
    using that inv by (simp add: ITD_inv_def trajectories_def ITD_id_def ITD_count_def dict_has_def)
  have present: "\<exists>i. ITD_id ?itd t = Inr i \<and> map_of (ITD_t2idx ?itd) t = Some i \<and>
      i < length (trajectories ?itd) \<and> trajectories ?itd ! i = t"
    if "t \<in> set (trajectories ?itd)"
  proof -
    from that inv have has: "dict_has (ITD_t2idx ?itd) t"
      by (simp add: ITD_inv_def trajectories_def dict_has_def)
    from dict_get_has [OF has] obtain i where i: "dict_get (ITD_t2idx ?itd) t = Inr i" ..
    then have "map_of (ITD_t2idx ?itd) t = Some i" by (simp add: dict_get_eq_Inr)
    with inv i has show ?thesis
      by (auto simp: ITD_inv_def trajectories_def ITD_id_def)
  qed
  from absent present ITD_count_total show ?thesis by blast
qed

theorem ITD_id_raises_count_defaults_witness:
  "Trajectory [4, 5, 6] \<notin>
     set (trajectories (ITD_init (ITDBuilder_add (ITDBuilder_init 7) (Trajectory [1, 2, 3])) [])) \<and>
   ITD_id (ITD_init (ITDBuilder_add (ITDBuilder_init 7) (Trajectory [1, 2, 3])) [])
     (Trajectory [4, 5, 6]) = Inl Exception \<and>
   ITD_count (ITD_init (ITDBuilder_add (ITDBuilder_init 7) (Trajectory [1, 2, 3])) [])
     (Trajectory [4, 5, 6]) = Inr 0 \<and>
   Trajectory [1, 2, 3] \<in>
     set (trajectories (ITD_init (ITDBuilder_add (ITDBuilder_init 7) (Trajectory [1, 2, 3])) [])) \<and>
   ITD_id (ITD_init (ITDBuilder_add (ITDBuilder_init 7) (Trajectory [1, 2, 3])) [])
     (Trajectory [1, 2, 3]) = Inr 0 \<and>
   ITD_count (ITD_init (ITDBuilder_add (ITDBuilder_init 7) (Trajectory [1, 2, 3])) [])
     (Trajectory [1, 2, 3]) = Inr 1"
  using ITD_id_raises_count_defaults
          [of "Trajectory [4, 5, 6]" "ITDBuilder_add (ITDBuilder_init 7) (Trajectory [1, 2, 3])" "[]"]
        ITD_id_raises_count_defaults
          [of "Trajectory [1, 2, 3]" "ITDBuilder_add (ITDBuilder_init 7) (Trajectory [1, 2, 3])" "[]"]
  by (simp add: ITD_init_def ITDBuilder_add_def ITDBuilder_init_def ITD_init_step_def
      trajectories_def ITD_id_def ITD_count_def dict_has_def dict_keys_def dict_get_def
      dict_set_def dd_get_def)

section \<open>The risk of a trajectory\<close>

lemma ITD_count_value: "ITD_count itd t = Inr (count_value itd t)"
  using ITD_count_total [of itd t] by (auto simp: count_value_def)

lemma emap_Inr: "(\<And>x. x \<in> set xs \<Longrightarrow> f x = Inr (g x)) \<Longrightarrow> emap f xs = Inr (map g xs)"
  by (induction xs) simp_all

lemma emap_counts:
  "emap (\<lambda>(_, itd). ITD_count itd t) itds = Inr (map (\<lambda>(_, itd). count_value itd t) itds)"
  by (rule emap_Inr) (auto simp: ITD_count_value)

lemma risk_eq:
  "risk c t itds =
     (if population_count itds t = 0 then Inl ZeroDivisionError
      else Inr (real_of_int c / real_of_int (population_count itds t)))"
  by (simp add: risk_def emap_counts population_count_def)

lemma count_value_nonneg:
  assumes "counts_nonneg itds" and "(u, itd) \<in> set itds"
  shows "0 \<le> count_value itd t"
proof (cases "map_of (ITD_t2cnt itd) t")
  case None
  then show ?thesis
    by (simp add: count_value_def ITD_count_def dict_has_iff)
next
  case (Some c)
  then have "(t, c) \<in> set (ITD_t2cnt itd)" by (rule map_of_SomeD)
  with assms have "0 \<le> c" by (fastforce simp: counts_nonneg_def)
  with Some show ?thesis
    by (simp add: count_value_def ITD_count_def dict_has_iff dict_get_def)
qed

lemma population_count_ge:
  assumes "counts_nonneg itds" and "(u, itd) \<in> set itds"
  shows "count_value itd t \<le> population_count itds t"
proof -
  have "\<And>x. x \<in> set itds \<Longrightarrow> 0 \<le> (case x of (u, itd) \<Rightarrow> count_value itd t)"
    using assms(1) by (auto intro: count_value_nonneg)
  then have "(case (u, itd) of (u, itd) \<Rightarrow> count_value itd t)
      \<le> sum_list (map (\<lambda>(u, itd). count_value itd t) itds)"
    using assms(2) by (intro member_le_sum_list) auto
  then show ?thesis by (simp add: population_count_def)
qed

lemma holders_sum:
  "(\<Sum>(u, itd)\<leftarrow>filter (\<lambda>(u, itd). count_value itd t \<noteq> 0) itds. real_of_int (count_value itd t) / d)
   = real_of_int (population_count itds t) / d"
proof -
  have "(\<Sum>x\<leftarrow>filter (\<lambda>(u, itd). count_value itd t \<noteq> 0) itds. real_of_int (case x of (u, itd) \<Rightarrow> count_value itd t) / d)
      = (\<Sum>x\<leftarrow>itds. real_of_int (case x of (u, itd) \<Rightarrow> count_value itd t) / d)"
    by (rule sum_list_map_filter) auto
  also have "\<dots> = real_of_int (\<Sum>x\<leftarrow>itds. case x of (u, itd) \<Rightarrow> count_value itd t) / d"
    by (induction itds) (simp_all add: add_divide_distrib)
  also have "\<dots> = real_of_int (population_count itds t) / d"
    by (simp add: population_count_def)
  finally show ?thesis by (simp add: case_prod_unfold)
qed

text \<open>
  C5. In a population without negative counts, let user \<open>u\<close> hold trajectory \<open>t\<close> at
  least once. Then the population-wide count of \<open>t\<close> is positive,
  \<open>risk c t itds\<close> is \<open>c\<close> divided by that count for every \<open>c\<close>, it lies in
  \<open>(0, 1]\<close> for every \<open>c\<close> from 1 up to the count of \<open>t\<close> for \<open>u\<close>, and the risks
  of the users who hold \<open>t\<close>, each at its own count, add up to 1.
\<close>

theorem risk_fraction:
  assumes "counts_nonneg itds" and "(u, itd) \<in> set itds" and "1 \<le> count_value itd t"
  shows "0 < population_count itds t \<and>
    (\<forall>c. risk c t itds = Inr (real_of_int c / real_of_int (population_count itds t))) \<and>
    (\<forall>c. 1 \<le> c \<and> c \<le> count_value itd t \<longrightarrow>
       (\<exists>v. risk c t itds = Inr v \<and> 0 < v \<and> v \<le> 1)) \<and>
    (\<exists>vs. emap (\<lambda>(u', itd'). risk (count_value itd' t) t itds)
             (filter (\<lambda>(u', itd'). count_value itd' t \<noteq> 0) itds) = Inr vs \<and>
          sum_list vs = 1)"
proof -
  let ?n = "population_count itds t"
  have le: "count_value itd t \<le> ?n"
    using assms(1,2) by (rule population_count_ge)
  with assms(3) have pos: "0 < ?n" by simp
  then have r: "risk c t itds = Inr (real_of_int c / real_of_int ?n)" for c
    by (simp add: risk_eq)
  have bounds: "\<exists>v. risk c t itds = Inr v \<and> 0 < v \<and> v \<le> 1"
    if "1 \<le> c \<and> c \<le> count_value itd t" for c
  proof -
    from that le have "0 < c" and "c \<le> ?n" by simp_all
    with pos have "0 < real_of_int c / real_of_int ?n" and "real_of_int c / real_of_int ?n \<le> 1"
      by simp_all
    with r show ?thesis by blast
  qed
  let ?hs = "filter (\<lambda>(u', itd'). count_value itd' t \<noteq> 0) itds"
  let ?vs = "map (\<lambda>(u', itd'). real_of_int (count_value itd' t) / real_of_int ?n) ?hs"
  have "emap (\<lambda>(u', itd'). risk (count_value itd' t) t itds) ?hs = Inr ?vs"
    by (rule emap_Inr) (auto simp: r)
  moreover have "sum_list ?vs = 1"
    using pos by (simp add: holders_sum)
  ultimately show ?thesis using pos r bounds by blast
qed

theorem risk_fraction_witness:
  "counts_nonneg example_itds \<and> (1, example_A) \<in> set example_itds \<and>
   1 \<le> count_value example_A (Trajectory [1, 2, 3]) \<and>
   population_count example_itds (Trajectory [1, 2, 3]) = 10 \<and>
   risk 5 (Trajectory [1, 2, 3]) example_itds = Inr (1 / 2)"
proof -
  have h1: "counts_nonneg example_itds" by code_simp
  have h2: "(1, example_A) \<in> set example_itds" by (simp add: example_itds_def)
  have h3: "1 \<le> count_value example_A (Trajectory [1, 2, 3])" by code_simp
  have n: "population_count example_itds (Trajectory [1, 2, 3]) = 10" by code_simp
  from risk_fraction [OF h1 h2 h3]
  have "risk 5 (Trajectory [1, 2, 3]) example_itds =
      Inr (real_of_int 5 / real_of_int (population_count example_itds (Trajectory [1, 2, 3])))"
    by blast
  with h1 h2 h3 n show ?thesis by simp
qed

section \<open>Strong relations\<close>

lemma dd_get_dict_set: "dd_get dflt (dict_set d k v) k' = (if k' = k then v else dd_get dflt d k')"
  by (simp add: dd_get_def map_of_dict_set)

lemma dd_get_Nil [simp]: "dd_get dflt [] k = dflt"
  by (simp add: dd_get_def)

lemma distinct_dict_set: "distinct (map fst d) \<Longrightarrow> distinct (map fst (dict_set d k v))"
  by (simp add: dict_set_def distinct_update)

lemma map_of_Some_in_keys: "map_of d k = Some v \<Longrightarrow> k \<in> fst ` set d"
  by (induction d) (auto split: if_splits)

lemma dd_get_distinct:
  "distinct (map fst d) \<Longrightarrow> (k, v) \<in> set d \<Longrightarrow> dd_get dflt d k = v"
  by (simp add: dd_get_def)

lemma t2uid_get:
  "dd_get {} (fold t2uid_step items t2uid) t = dd_get {} t2uid t \<union> {uid. (uid, t) \<in> set items}"
  by (induction items arbitrary: t2uid) (auto simp: t2uid_step_def dd_get_dict_set split: if_splits)

lemma t2uid_keys:
  "fst ` set (fold t2uid_step items t2uid) = fst ` set t2uid \<union> snd ` set items"
proof (induction items arbitrary: t2uid)
  case Nil
  then show ?case by simp
next
  case (Cons a items)
  obtain uid t where a: "a = (uid, t)" by (cases a)
  have "fst ` set (t2uid_step a t2uid) = insert t (fst ` set t2uid)"
    using keys_dict_set [of t2uid t] by (simp add: a t2uid_step_def dict_keys_def)
  then show ?case using Cons.IH [of "t2uid_step a t2uid"] by (auto simp: a)
qed

lemma t2uid_distinct:
  "distinct (map fst t2uid) \<Longrightarrow> distinct (map fst (fold t2uid_step items t2uid))"
  by (induction items arbitrary: t2uid) (auto simp: t2uid_step_def distinct_dict_set)

lemma find_strong_relations_alt:
  "find_strong_relations so riskest = fold (group_step so) (fold t2uid_step riskest []) []"
  by (simp add: find_strong_relations_def)

lemma member_fold_get:
  "dd_get [] (fold (\<lambda>uid relations. dict_set relations uid (so (uids - {uid}))) xs relations) u =
     (if u \<in> set xs then so (uids - {u}) else dd_get [] relations u)"
  by (induction xs arbitrary: relations) (auto simp: dd_get_dict_set)

lemma member_fold_distinct:
  "distinct (map fst relations) \<Longrightarrow>
   distinct (map fst (fold (\<lambda>uid relations. dict_set relations uid (f uid)) xs relations))"
  by (induction xs arbitrary: relations) (auto simp: distinct_dict_set)

lemma group_step_distinct:
  "distinct (map fst relations) \<Longrightarrow> distinct (map fst (group_step so g relations))"
  by (cases g) (simp add: group_step_def member_fold_distinct)

lemma groups_fold_distinct:
  "distinct (map fst relations) \<Longrightarrow> distinct (map fst (fold (group_step so) gs relations))"
  by (induction gs arbitrary: relations) (auto simp: group_step_distinct)

lemma find_strong_relations_distinct: "distinct (map fst (find_strong_relations so riskest))"
  by (simp add: find_strong_relations_alt groups_fold_distinct)

lemma finite_peers: "finite (peers riskest t)"
proof -
  have "peers riskest t \<subseteq> fst ` set riskest" by (force simp: peers_def)
  then show ?thesis by (rule finite_subset) simp
qed

lemma groups_fold_get:
  assumes so: "set_order so"
    and gs: "\<forall>(t, uids) \<in> set gs. uids = peers riskest t"
    and fn: "distinct (map fst riskest)"
  shows "dd_get [] (fold (group_step so) gs relations) u =
     (if \<exists>t \<in> fst ` set gs. u \<in> peers riskest t \<and> card (peers riskest t) > 1
      then so (peers riskest (the (map_of riskest u)) - {u})
      else dd_get [] relations u)"
  using gs
proof (induction gs arbitrary: relations)
  case Nil
  then show ?case by simp
next
  case (Cons g gs)
  obtain t uids where g: "g = (t, uids)" by (cases g)
  from Cons.prems have uids: "uids = peers riskest t" by (simp add: g)
  have in_so: "u \<in> set (so uids) \<longleftrightarrow> u \<in> peers riskest t"
    using so finite_peers [of riskest t] by (simp add: set_order_def uids)
  have the_t: "the (map_of riskest u) = t" if "u \<in> peers riskest t"
    using that fn by (simp add: peers_def)
  have step: "dd_get [] (group_step so g relations) u =
      (if u \<in> peers riskest t \<and> card (peers riskest t) > 1
       then so (peers riskest (the (map_of riskest u)) - {u}) else dd_get [] relations u)"
    using in_so the_t by (auto simp: g group_step_def member_fold_get uids)
  from Cons.prems have "\<forall>(t, uids) \<in> set gs. uids = peers riskest t" by simp
  from Cons.IH [OF this, of "group_step so g relations"] step show ?case
    by (auto simp: g)
qed

lemma strong_get:
  assumes so: "set_order so" and fn: "distinct (map fst riskest)"
  shows "dd_get [] (find_strong_relations so riskest) u =
     (case map_of riskest u of None \<Rightarrow> []
      | Some t \<Rightarrow> if card (peers riskest t) > 1 then so (peers riskest t - {u}) else [])"
proof -
  let ?t2uid = "fold t2uid_step riskest []"
  have d: "distinct (map fst ?t2uid)" by (simp add: t2uid_distinct)
  have gs: "\<forall>(t, uids) \<in> set ?t2uid. uids = peers riskest t"
  proof clarify
    fix t uids assume "(t, uids) \<in> set ?t2uid"
    with d have "dd_get {} ?t2uid t = uids" by (rule dd_get_distinct)
    then show "uids = peers riskest t" by (simp add: t2uid_get peers_def)
  qed
  have keys: "fst ` set ?t2uid = snd ` set riskest" by (simp add: t2uid_keys)
  show ?thesis
  proof (cases "map_of riskest u")
    case None
    have "u \<notin> peers riskest t" for t
    proof
      assume "u \<in> peers riskest t"
      then have "(u, t) \<in> set riskest" by (simp add: peers_def)
      then have "fst (u, t) \<in> fst ` set riskest" by (rule imageI)
      with None show False by (simp add: map_of_eq_None_iff)
    qed
    then show ?thesis
      using groups_fold_get [OF so gs fn, of "[]" u] None
      by (simp add: find_strong_relations_alt)
  next
    case (Some t)
    then have mem: "(u, t) \<in> set riskest" by (rule map_of_SomeD)
    then have ut: "u \<in> peers riskest t" by (simp add: peers_def)
    have only: "t' = t" if "u \<in> peers riskest t'" for t'
      using that fn Some by (simp add: peers_def)
    from mem have "t \<in> snd ` set riskest" by force
    with keys have tk: "t \<in> fst ` set ?t2uid" by simp
    have "(\<exists>t' \<in> fst ` set ?t2uid. u \<in> peers riskest t' \<and> card (peers riskest t') > 1)
        \<longleftrightarrow> card (peers riskest t) > 1" (is "?L \<longleftrightarrow> ?R")
    proof
      assume ?L
      then obtain t' where "u \<in> peers riskest t'" and "card (peers riskest t') > 1"
        by (elim bexE conjE)
      with only [of t'] show ?R by simp
    next
      assume ?R
      with ut have "u \<in> peers riskest t \<and> card (peers riskest t) > 1" by simp
      with tk show ?L by (rule rev_bexI)
    qed
    then show ?thesis
      using groups_fold_get [OF so gs fn, of "[]" u] Some
      by (simp add: find_strong_relations_alt)
  qed
qed

lemma strong_set:
  assumes so: "set_order so" and fn: "distinct (map fst riskest)"
  shows "set (dd_get [] (find_strong_relations so riskest) u) =
     {v. v \<noteq> u \<and> (\<exists>t. map_of riskest u = Some t \<and> map_of riskest v = Some t)}"
proof (cases "map_of riskest u")
  case None
  then show ?thesis by (simp add: strong_get [OF so fn])
next
  case (Some t)
  have fin: "finite (peers riskest t)" by (rule finite_peers)
  have p: "peers riskest t = {v. map_of riskest v = Some t}"
    using fn by (auto simp: peers_def)
  have u: "u \<in> peers riskest t" using Some by (simp add: p)
  show ?thesis
  proof (cases "card (peers riskest t) > 1")
    case True
    then show ?thesis
      using so fin Some by (auto simp: strong_get [OF so fn] set_order_def p)
  next
    case False
    from fin u have "card (peers riskest t) \<noteq> 0" by auto
    with False have "card (peers riskest t) = 1" by simp
    then obtain x where "peers riskest t = {x}" by (rule card_1_singletonE)
    with u have "peers riskest t = {u}" by simp
    then show ?thesis
      using Some False unfolding p by (auto simp: strong_get [OF so fn] p)
  qed
qed

text \<open>
  C6. For distinct users \<open>u\<close> and \<open>v\<close>: \<open>v\<close> is a strong relation of \<open>u\<close> exactly
  when \<open>u\<close> is one of \<open>v\<close>, and exactly when both have the same riskiest trajectory,
  which at least two users then share.
\<close>

theorem strong_relations_symmetric:
  assumes "set_order so" and "distinct (map fst riskest)" and "u \<noteq> v"
  shows "(v \<in> set (dd_get [] (find_strong_relations so riskest) u) \<longleftrightarrow>
          u \<in> set (dd_get [] (find_strong_relations so riskest) v)) \<and>
         (v \<in> set (dd_get [] (find_strong_relations so riskest) u) \<longleftrightarrow>
          (\<exists>t. map_of riskest u = Some t \<and> map_of riskest v = Some t \<and>
               2 \<le> card {w. map_of riskest w = Some t}))"
proof -
  have two: "2 \<le> card {w. map_of riskest w = Some t}"
    if "map_of riskest u = Some t" and "map_of riskest v = Some t" for t
  proof -
    have "{w. map_of riskest w = Some t} \<subseteq> fst ` set riskest"
      by (auto dest: map_of_Some_in_keys)
    then have fin: "finite {w. map_of riskest w = Some t}"
      by (rule finite_subset) simp
    have "{u, v} \<subseteq> {w. map_of riskest w = Some t}" using that by simp
    from card_mono [OF fin this] assms(3) show ?thesis by simp
  qed
  show ?thesis
    using assms(3) two by (auto simp: strong_set [OF assms(1,2)])
qed

theorem strong_relations_symmetric_witness:
  "set_order sorted_list_of_set \<and> distinct (map fst example_riskest) \<and> (1::int) \<noteq> 2 \<and>
   2 \<in> set (dd_get [] (find_strong_relations sorted_list_of_set example_riskest) 1) \<and>
   1 \<in> set (dd_get [] (find_strong_relations sorted_list_of_set example_riskest) 2)"
proof -
  have h1: "set_order sorted_list_of_set" by (simp add: set_order_def)
  have h2: "distinct (map fst example_riskest)" by (simp add: example_riskest_def)
  have h3: "(1::int) \<noteq> 2" by simp
  have e: "2 \<in> set (dd_get [] (find_strong_relations sorted_list_of_set example_riskest) 1)"
    by code_simp
  from strong_relations_symmetric [OF h1 h2 h3] e
  have "1 \<in> set (dd_get [] (find_strong_relations sorted_list_of_set example_riskest) 2)"
    by blast
  with h1 h2 h3 e show ?thesis by blast
qed

section \<open>Weak relations\<close>

lemma in_keys_map_of: "k \<in> set (dict_keys d) \<Longrightarrow> \<exists>v. map_of d k = Some v"
  using map_of_eq_None_iff [of d k] by (auto simp: dict_keys_def)

lemma weak_cond_eq:
  assumes "uid2 \<in> set (dict_keys itds)"
  shows "weak_cond riskest itds strong uid1 uid2 = Inr (weak_rel riskest itds strong uid1 uid2)"
proof -
  from in_keys_map_of [OF assms] obtain itd2 where itd2: "map_of itds uid2 = Some itd2" ..
  show ?thesis
  proof (cases "map_of riskest uid1")
    case None
    then show ?thesis
      by (simp add: weak_cond_def weak_rel_def dict_has_iff)
  next
    case (Some t)
    with itd2 show ?thesis
      by (simp add: weak_cond_def weak_rel_def dict_has_iff dict_get_def)
  qed
qed

lemma weak_step_eq:
  assumes "uid2 \<in> set (dict_keys itds)"
  shows "weak_step riskest itds strong uid1 uid2 weak =
     Inr (if weak_rel riskest itds strong uid1 uid2
          then dict_set weak uid1 (dd_get [] weak uid1 @ [uid2]) else weak)"
  by (simp add: weak_step_def weak_cond_eq [OF assms])

lemma weak_inner:
  assumes "set ys \<subseteq> set (dict_keys itds)" and "distinct (map fst weak)"
  shows "\<exists>weak'. efold (weak_step riskest itds strong uid1) ys weak = Inr weak' \<and>
     distinct (map fst weak') \<and>
     (\<forall>u. set (dd_get [] weak' u) = set (dd_get [] weak u) \<union>
        (if u = uid1 then {v \<in> set ys. weak_rel riskest itds strong uid1 v} else {}))"
  using assms
proof (induction ys arbitrary: weak)
  case Nil
  then show ?case by simp
next
  case (Cons y ys)
  let ?w = "if weak_rel riskest itds strong uid1 y
          then dict_set weak uid1 (dd_get [] weak uid1 @ [y]) else weak"
  from Cons.prems have y: "y \<in> set (dict_keys itds)" and ys: "set ys \<subseteq> set (dict_keys itds)"
    by simp_all
  have d: "distinct (map fst ?w)" using Cons.prems(2) by (simp add: distinct_dict_set)
  from Cons.IH [OF ys d] obtain weak' where
    w: "efold (weak_step riskest itds strong uid1) ys ?w = Inr weak'"
    and dw: "distinct (map fst weak')"
    and g: "\<And>u. set (dd_get [] weak' u) = set (dd_get [] ?w u) \<union>
        (if u = uid1 then {v \<in> set ys. weak_rel riskest itds strong uid1 v} else {})"
    by blast
  have "efold (weak_step riskest itds strong uid1) (y # ys) weak = Inr weak'"
    using w by (simp add: weak_step_eq [OF y])
  moreover have "set (dd_get [] weak' u) = set (dd_get [] weak u) \<union>
        (if u = uid1 then {v \<in> set (y # ys). weak_rel riskest itds strong uid1 v} else {})" for u
    unfolding g [of u] by (auto simp: dd_get_dict_set)
  ultimately show ?case using dw by blast
qed

lemma weak_outer:
  assumes "distinct (map fst weak)"
  shows "\<exists>weak'. efold (\<lambda>uid1. efold (weak_step riskest itds strong uid1) (dict_keys itds)) xs weak
       = Inr weak' \<and>
     distinct (map fst weak') \<and>
     (\<forall>u. set (dd_get [] weak' u) = set (dd_get [] weak u) \<union>
        (if u \<in> set xs then {v \<in> set (dict_keys itds). weak_rel riskest itds strong u v} else {}))"
  using assms
proof (induction xs arbitrary: weak)
  case Nil
  then show ?case by simp
next
  case (Cons x xs)
  from weak_inner [OF subset_refl Cons.prems, where riskest = riskest and strong = strong and ?uid1.0 = x] obtain w1 where
    w1: "efold (weak_step riskest itds strong x) (dict_keys itds) weak = Inr w1"
    and d1: "distinct (map fst w1)"
    and g1: "\<And>u. set (dd_get [] w1 u) = set (dd_get [] weak u) \<union>
        (if u = x then {v \<in> set (dict_keys itds). weak_rel riskest itds strong x v} else {})"
    by blast
  from Cons.IH [OF d1] obtain weak' where
    w: "efold (\<lambda>uid1. efold (weak_step riskest itds strong uid1) (dict_keys itds)) xs w1 = Inr weak'"
    and dw: "distinct (map fst weak')"
    and g: "\<And>u. set (dd_get [] weak' u) = set (dd_get [] w1 u) \<union>
        (if u \<in> set xs then {v \<in> set (dict_keys itds). weak_rel riskest itds strong u v} else {})"
    by blast
  have "efold (\<lambda>uid1. efold (weak_step riskest itds strong uid1) (dict_keys itds)) (x # xs) weak
      = Inr weak'"
    using w1 w by simp
  moreover have "set (dd_get [] weak' u) = set (dd_get [] weak u) \<union>
        (if u \<in> set (x # xs) then {v \<in> set (dict_keys itds). weak_rel riskest itds strong u v}
         else {})" for u
    unfolding g [of u] g1 [of u] by auto
  ultimately show ?case using dw by blast
qed

lemma find_weak_relations_strong:
  "find_weak_relations so riskest itds (find_strong_relations so riskest) =
   efold (\<lambda>uid1. efold (weak_step riskest itds (find_strong_relations so riskest) uid1)
     (dict_keys itds)) (dict_keys itds) []"
  by (simp add: find_weak_relations_def)

lemma weak_relations:
  "\<exists>weak. find_weak_relations so riskest itds (find_strong_relations so riskest) = Inr weak \<and>
     distinct (map fst weak) \<and>
     (\<forall>u. set (dd_get [] weak u) =
        {v. u \<in> set (dict_keys itds) \<and> v \<in> set (dict_keys itds) \<and>
            weak_rel riskest itds (find_strong_relations so riskest) u v})"
proof -
  from weak_outer [where weak = "[]" and riskest = riskest and itds = itds
      and strong = "find_strong_relations so riskest" and xs = "dict_keys itds"]
  obtain weak where
    w: "efold (\<lambda>uid1. efold (weak_step riskest itds (find_strong_relations so riskest) uid1)
     (dict_keys itds)) (dict_keys itds) [] = Inr weak"
    and d: "distinct (map fst weak)"
    and g: "\<And>u. set (dd_get [] weak u) = set (dd_get [] [] u) \<union>
        (if u \<in> set (dict_keys itds)
         then {v \<in> set (dict_keys itds). weak_rel riskest itds (find_strong_relations so riskest) u v}
         else {})"
    by auto
  have "set (dd_get [] weak u) =
        {v. u \<in> set (dict_keys itds) \<and> v \<in> set (dict_keys itds) \<and>
            weak_rel riskest itds (find_strong_relations so riskest) u v}" for u
    unfolding g [of u] by auto
  with w d show ?thesis
    unfolding find_weak_relations_strong by blast
qed

section \<open>The users affected by a change of budget\<close>

lemma affected_add_Inr:
  assumes "affected_add k v aff = Inr aff'"
  shows "fst ` set aff' = fst ` set aff \<and>
     (\<forall>u. set (dd_get [] aff' u) = set (dd_get [] aff u) \<union> (if u = v then {k} else {}))"
proof -
  from assms obtain l where l: "map_of aff v = Some l" and aff': "aff' = dict_set aff v (l @ [k])"
    by (auto simp: affected_add_def ebind_eq_Inr dict_get_eq_Inr)
  from l have "v \<in> fst ` set aff" by (rule map_of_Some_in_keys)
  then have "fst ` set aff' = fst ` set aff"
    using keys_dict_set [of aff v "l @ [k]"] by (auto simp: aff' dict_keys_def)
  moreover from l have "dd_get [] aff v = l" by (simp add: dd_get_def)
  then have "set (dd_get [] aff' u) = set (dd_get [] aff u) \<union> (if u = v then {k} else {})" for u
    by (auto simp: aff' dd_get_dict_set)
  ultimately show ?thesis by blast
qed

lemma affected_add_ok:
  assumes "v \<in> fst ` set aff"
  shows "\<exists>aff'. affected_add k v aff = Inr aff'"
proof -
  from assms have "map_of aff v \<noteq> None" by (simp add: map_of_eq_None_iff)
  then show ?thesis by (auto simp: affected_add_def dict_get_def)
qed

lemma affected_inner_Inr:
  assumes "efold (affected_add k) vs aff = Inr aff'"
  shows "fst ` set aff' = fst ` set aff \<and>
     (\<forall>u. set (dd_get [] aff' u) = set (dd_get [] aff u) \<union> (if u \<in> set vs then {k} else {}))"
  using assms
proof (induction vs arbitrary: aff)
  case Nil
  then show ?case by simp
next
  case (Cons v vs)
  from Cons.prems obtain a1 where a1: "affected_add k v aff = Inr a1"
    and rest: "efold (affected_add k) vs a1 = Inr aff'"
    by (auto simp: ebind_eq_Inr)
  from affected_add_Inr [OF a1] Cons.IH [OF rest] show ?case by auto
qed

lemma affected_inner_ok:
  assumes "set vs \<subseteq> fst ` set aff"
  shows "\<exists>aff'. efold (affected_add k) vs aff = Inr aff'"
  using assms
proof (induction vs arbitrary: aff)
  case Nil
  then show ?case by simp
next
  case (Cons v vs)
  from Cons.prems have "v \<in> fst ` set aff" by simp
  from affected_add_ok [OF this] obtain a1 where a1: "affected_add k v aff = Inr a1" ..
  from affected_add_Inr [OF a1] Cons.prems have "set vs \<subseteq> fst ` set a1" by simp
  from Cons.IH [OF this] a1 show ?case by simp
qed

lemma affected_loop_Inr:
  assumes "affected_loop rel aff = Inr aff'"
  shows "fst ` set aff' = fst ` set aff \<and>
     (\<forall>u. set (dd_get [] aff' u) =
          set (dd_get [] aff u) \<union> {k. \<exists>l. (k, l) \<in> set rel \<and> u \<in> set l})"
  using assms
proof (induction rel arbitrary: aff)
  case Nil
  then show ?case by (simp add: affected_loop_def)
next
  case (Cons r rel)
  obtain k l where r: "r = (k, l)" by (cases r)
  from Cons.prems obtain a1 where a1: "efold (affected_add k) l aff = Inr a1"
    and rest: "affected_loop rel a1 = Inr aff'"
    by (auto simp: affected_loop_def r ebind_eq_Inr)
  from affected_inner_Inr [OF a1] Cons.IH [OF rest] show ?case
    by (auto simp: r)
qed

lemma affected_loop_ok:
  assumes "\<forall>(k, l) \<in> set rel. set l \<subseteq> fst ` set aff"
  shows "\<exists>aff'. affected_loop rel aff = Inr aff'"
  using assms
proof (induction rel arbitrary: aff)
  case Nil
  then show ?case by (simp add: affected_loop_def)
next
  case (Cons r rel)
  obtain k l where r: "r = (k, l)" by (cases r)
  from Cons.prems have "set l \<subseteq> fst ` set aff" by (simp add: r)
  from affected_inner_ok [OF this] obtain a1 where a1: "efold (affected_add k) l aff = Inr a1" ..
  from affected_inner_Inr [OF a1] Cons.prems
  have "\<forall>(k, l) \<in> set rel. set l \<subseteq> fst ` set a1" by simp
  from Cons.IH [OF this] obtain aff' where "affected_loop rel a1 = Inr aff'" ..
  with a1 show ?case by (simp add: affected_loop_def r)
qed

lemma relation_sources:
  assumes "distinct (map fst rel)"
  shows "{k. \<exists>l. (k, l) \<in> set rel \<and> u \<in> set l} = {k. u \<in> set (dd_get [] rel k)}"
proof -
  have "\<exists>l. (k, l) \<in> set rel \<and> u \<in> set l" if "u \<in> set (dd_get [] rel k)" for k
  proof (cases "map_of rel k")
    case None
    with that show ?thesis by (simp add: dd_get_def)
  next
    case (Some l)
    with that have "u \<in> set l" by (simp add: dd_get_def)
    moreover from Some have "(k, l) \<in> set rel" by (rule map_of_SomeD)
    ultimately show ?thesis by blast
  qed
  moreover have "u \<in> set (dd_get [] rel k)" if "(k, l) \<in> set rel" and "u \<in> set l" for k l
    using that assms by (simp add: dd_get_distinct)
  ultimately show ?thesis by blast
qed

lemma map_of_dict_of_keys:
  "map_of (fold (\<lambda>(k, v) d. dict_set d k v) (map (\<lambda>u. (u, f u)) xs) d) u =
     (if u \<in> set xs then Some (f u) else map_of d u)"
  by (induction xs arbitrary: d) (auto simp: map_of_dict_set)

lemma affected_initial:
  "map_of (dict_of (map (\<lambda>uid. (uid, [uid])) xs)) u = (if u \<in> set xs then Some [u] else None)"
  by (simp add: dict_of_def map_of_dict_of_keys)

lemma affected_initial_keys:
  "fst ` set (dict_of (map (\<lambda>uid. (uid, [uid])) xs)) = set xs"
proof -
  have "u \<in> fst ` set (dict_of (map (\<lambda>uid. (uid, [uid])) xs)) \<longleftrightarrow> u \<in> set xs" for u
    using map_of_eq_None_iff [of "dict_of (map (\<lambda>uid. (uid, [uid])) xs)" u]
    by (simp add: affected_initial split: if_splits)
  then show ?thesis by blast
qed

lemma dict_get_dd_get:
  assumes "k \<in> fst ` set d"
  shows "dict_get d k = Inr (dd_get dflt d k)"
proof -
  from assms have "map_of d k \<noteq> None" by (simp add: map_of_eq_None_iff)
  then show ?thesis by (auto simp: dict_get_def dd_get_def)
qed

lemma affected_by_Inr:
  assumes ret: "affected_by so riskest itds = Inr aff"
    and weak: "find_weak_relations so riskest itds (find_strong_relations so riskest) = Inr weak"
  shows "fst ` set aff = set (dict_keys itds) \<and>
    (\<forall>u \<in> set (dict_keys itds).
       set (dd_get [] aff u) =
         {u} \<union> {v. u \<in> set (dd_get [] (find_strong_relations so riskest) v)}
             \<union> {v. u \<in> set (dd_get [] weak v)})"
proof -
  let ?strong = "find_strong_relations so riskest"
  let ?a0 = "dict_of (map (\<lambda>uid. (uid, [uid])) (dict_keys itds))"
  from ret weak obtain a1 where a1: "affected_loop ?strong ?a0 = Inr a1"
    and a2: "affected_loop weak a1 = Inr aff"
    by (auto simp: affected_by_def Let_def ebind_eq_Inr)
  from weak_relations [of so riskest itds] weak have dw: "distinct (map fst weak)" by auto
  have ds: "distinct (map fst ?strong)" by (rule find_strong_relations_distinct)
  from affected_loop_Inr [OF a1]
  have k1: "fst ` set a1 = fst ` set ?a0"
    and g1: "\<And>u. set (dd_get [] a1 u) = set (dd_get [] ?a0 u) \<union> {k. u \<in> set (dd_get [] ?strong k)}"
    by (simp_all add: relation_sources [OF ds])
  from affected_loop_Inr [OF a2]
  have k2: "fst ` set aff = fst ` set a1"
    and g2: "\<And>u. set (dd_get [] aff u) = set (dd_get [] a1 u) \<union> {k. u \<in> set (dd_get [] weak k)}"
    by (simp_all add: relation_sources [OF dw])
  have g0: "dd_get [] ?a0 u = [u]" if "u \<in> set (dict_keys itds)" for u
    using that by (simp add: dd_get_def affected_initial)
  from k1 k2 have "fst ` set aff = set (dict_keys itds)"
    by (simp add: affected_initial_keys)
  moreover have "set (dd_get [] aff u) =
         {u} \<union> {v. u \<in> set (dd_get [] ?strong v)} \<union> {v. u \<in> set (dd_get [] weak v)}"
    if "u \<in> set (dict_keys itds)" for u
    unfolding g2 [of u] g1 [of u] g0 [OF that] by simp
  ultimately show ?thesis by blast
qed

lemma strong_members_in_riskest:
  assumes "set_order so" and "distinct (map fst riskest)"
    and "(k, l) \<in> set (find_strong_relations so riskest)"
  shows "set l \<subseteq> set (dict_keys riskest)"
proof -
  from assms(3) find_strong_relations_distinct [of so riskest]
  have "dd_get [] (find_strong_relations so riskest) k = l"
    by (simp add: dd_get_distinct)
  with strong_set [OF assms(1,2), of k]
  have "set l = {v. v \<noteq> k \<and> (\<exists>t. map_of riskest k = Some t \<and> map_of riskest v = Some t)}"
    by simp
  then show ?thesis
    by (auto simp: dict_keys_def dest: map_of_Some_in_keys)
qed

lemma affected_by_ok:
  assumes so: "set_order so" and fn: "distinct (map fst riskest)"
    and sub: "set (dict_keys riskest) \<subseteq> set (dict_keys itds)"
  shows "\<exists>aff. affected_by so riskest itds = Inr aff"
proof -
  let ?strong = "find_strong_relations so riskest"
  let ?a0 = "dict_of (map (\<lambda>uid. (uid, [uid])) (dict_keys itds))"
  have "\<forall>(k, l) \<in> set ?strong. set l \<subseteq> fst ` set ?a0"
    using strong_members_in_riskest [OF so fn] sub
    by (auto simp: affected_initial_keys)
  from affected_loop_ok [OF this] obtain a1 where a1: "affected_loop ?strong ?a0 = Inr a1" ..
  from affected_loop_Inr [OF a1] have k1: "fst ` set a1 = set (dict_keys itds)"
    by (simp add: affected_initial_keys)
  from weak_relations [of so riskest itds] obtain weak where
    w: "find_weak_relations so riskest itds ?strong = Inr weak"
    and dw: "distinct (map fst weak)"
    and gw: "\<And>u. set (dd_get [] weak u) =
        {v. u \<in> set (dict_keys itds) \<and> v \<in> set (dict_keys itds) \<and> weak_rel riskest itds ?strong u v}"
    by blast
  have "\<forall>(k, l) \<in> set weak. set l \<subseteq> fst ` set a1"
  proof clarify
    fix k l v assume "(k, l) \<in> set weak" and v: "v \<in> set l"
    with dw have "dd_get [] weak k = l" by (simp add: dd_get_distinct)
    with gw [of k] v show "v \<in> fst ` set a1" by (auto simp: k1)
  qed
  from affected_loop_ok [OF this] obtain aff where "affected_loop weak a1 = Inr aff" ..
  with a1 w show ?thesis by (simp add: affected_by_def)
qed

text \<open>
  C7. \<open>affected_by\<close> returns whenever every user with a riskiest trajectory belongs to
  the population (and the dictionary \<open>riskest\<close> has one entry per key). Whenever it
  returns, the entry of a user \<open>u\<close> of the population contains \<open>u\<close>, and it contains
  \<open>v\<close> exactly when \<open>v\<close> is \<open>u\<close> or \<open>u\<close> is a strong or a weak relation of
  \<open>v\<close>: one hop, nothing more.
\<close>

theorem affected_by_one_hop:
  "(set_order so \<and> distinct (map fst riskest) \<and> set (dict_keys riskest) \<subseteq> set (dict_keys itds)
      \<longrightarrow> (\<exists>aff. affected_by so riskest itds = Inr aff)) \<and>
   (\<exists>weak. find_weak_relations so riskest itds (find_strong_relations so riskest) = Inr weak \<and>
      (\<forall>aff. affected_by so riskest itds = Inr aff \<longrightarrow>
         (\<forall>u \<in> set (dict_keys itds). \<exists>l. dict_get aff u = Inr l \<and> u \<in> set l \<and>
            (\<forall>v. v \<in> set l \<longleftrightarrow>
               v = u \<or> u \<in> set (dd_get [] (find_strong_relations so riskest) v) \<or>
               u \<in> set (dd_get [] weak v)))))"
proof -
  from weak_relations [of so riskest itds] obtain weak where
    w: "find_weak_relations so riskest itds (find_strong_relations so riskest) = Inr weak"
    by blast
  have "\<exists>l. dict_get aff u = Inr l \<and> u \<in> set l \<and>
            (\<forall>v. v \<in> set l \<longleftrightarrow>
               v = u \<or> u \<in> set (dd_get [] (find_strong_relations so riskest) v) \<or>
               u \<in> set (dd_get [] weak v))"
    if ret: "affected_by so riskest itds = Inr aff" and u: "u \<in> set (dict_keys itds)" for aff u
  proof -
    from affected_by_Inr [OF ret w] u
    have keys: "u \<in> fst ` set aff"
      and mem: "set (dd_get [] aff u) =
         {u} \<union> {v. u \<in> set (dd_get [] (find_strong_relations so riskest) v)}
             \<union> {v. u \<in> set (dd_get [] weak v)}"
      by simp_all
    from keys have "dict_get aff u = Inr (dd_get [] aff u)" by (rule dict_get_dd_get)
    moreover from mem have "u \<in> set (dd_get [] aff u)" by simp
    moreover from mem have "\<forall>v. v \<in> set (dd_get [] aff u) \<longleftrightarrow>
               v = u \<or> u \<in> set (dd_get [] (find_strong_relations so riskest) v) \<or>
               u \<in> set (dd_get [] weak v)" by auto
    ultimately show ?thesis by blast
  qed
  with w affected_by_ok [of so riskest itds] show ?thesis by blast
qed

theorem affected_by_one_hop_witness:
  "set_order sorted_list_of_set \<and> distinct (map fst example_riskest) \<and>
   set (dict_keys example_riskest) \<subseteq> set (dict_keys example_itds) \<and>
   1 \<in> set (dict_keys example_itds) \<and>
   affected_by sorted_list_of_set example_riskest example_itds = Inr [(1, [1, 2]), (2, [2, 1])] \<and>
   (\<exists>l. dict_get [(1::int, [1, 2::int]), (2, [2, 1])] 1 = Inr l \<and> 1 \<in> set l)"
proof -
  have h1: "set_order sorted_list_of_set" by (simp add: set_order_def)
  have h2: "distinct (map fst example_riskest)" by (simp add: example_riskest_def)
  have h3: "set (dict_keys example_riskest) \<subseteq> set (dict_keys example_itds)"
    by (simp add: example_riskest_def example_itds_def dict_keys_def)
  have h4: "1 \<in> set (dict_keys example_itds)"
    by (simp add: example_itds_def dict_keys_def)
  have e: "affected_by sorted_list_of_set example_riskest example_itds
      = Inr [(1, [1, 2]), (2, [2, 1])]"
    by code_simp
  from affected_by_one_hop [of sorted_list_of_set example_riskest example_itds] e h4
  have "\<exists>l. dict_get [(1::int, [1, 2::int]), (2, [2, 1])] 1 = Inr l \<and> 1 \<in> set l"
    by blast
  with h1 h2 h3 h4 e show ?thesis by blast
qed

section \<open>Matrices, loops and index dictionaries\<close>

subsection \<open>Matrices\<close>

lemma wf_mat_set: 
  assumes "wf_mat n m"
  shows "wf_mat n (mat_set m i j v)"
proof (cases "i < length m")
  case True
  then have "m ! i \<in> set m" by simp
  with assms have "length ((m ! i)[j := v]) = n" by (simp add: wf_mat_def)
  moreover have "set (m[i := (m ! i)[j := v]]) \<subseteq> insert ((m ! i)[j := v]) (set m)"
    by (rule set_update_subset_insert)
  ultimately show ?thesis using assms by (auto simp: wf_mat_def mat_set_def)
next
  case False
  then show ?thesis using assms by (simp add: mat_set_def list_update_beyond)
qed

lemma mat_get_set:
  assumes "wf_mat n m" and "i < n" and "j < n"
  shows "mat_get (mat_set m i j v) a b = (if a = i \<and> b = j then v else mat_get m a b)"
proof -
  from assms have "i < length m" and "j < length (m ! i)" by (simp_all add: wf_mat_def)
  then show ?thesis by (simp add: mat_get_def mat_set_def nth_list_update)
qed

lemma wf_mat_replicate: "wf_mat n (replicate n (replicate n x))"
  by (simp add: wf_mat_def)

lemma wf_mat_link: "wf_mat n m \<Longrightarrow> wf_mat n (link m i j w)"
  by (simp add: link_def Let_def wf_mat_set)

lemma mat_get_link:
  assumes "wf_mat n m" and "i < n" and "j < n" and "i \<noteq> j"
  shows "mat_get (link m i j w) a b =
     (if a = i \<and> b = i then mat_get m i i + w
      else if a = j \<and> b = j then mat_get m j j + w
      else if (a = i \<and> b = j) \<or> (a = j \<and> b = i) then - 1
      else mat_get m a b)"
  using assms by (simp add: link_def Let_def mat_get_set [where n = n] wf_mat_set)

lemma mat_eqI:
  assumes "wf_mat n a" and "wf_mat n b"
    and "\<And>i j. i < n \<Longrightarrow> j < n \<Longrightarrow> mat_get a i j = mat_get b i j"
  shows "a = b"
proof (rule nth_equalityI)
  show "length a = length b" using assms(1,2) by (simp add: wf_mat_def)
next
  fix i assume i: "i < length a"
  with assms(1,2) have la: "length (a ! i) = n" and lb: "length (b ! i) = n" and "i < n"
    by (simp_all add: wf_mat_def)
  show "a ! i = b ! i"
  proof (rule nth_equalityI)
    show "length (a ! i) = length (b ! i)" by (simp add: la lb)
  next
    fix j assume "j < length (a ! i)"
    with la have "j < n" by simp
    from assms(3) [OF \<open>i < n\<close> this] show "a ! i ! j = b ! i ! j" by (simp add: mat_get_def)
  qed
qed

subsection \<open>Loops that may raise\<close>

lemma efold_append: "efold f (xs @ ys) s = ebind (efold f xs s) (efold f ys)"
  by (induction xs arbitrary: s) (auto simp: ebind_def split: sum.splits)

lemma efold_invariant:
  assumes "efold f xs s = Inr s'" and "P s"
    and "\<And>x s s'. x \<in> set xs \<Longrightarrow> P s \<Longrightarrow> f x s = Inr s' \<Longrightarrow> P s'"
  shows "P s'"
  using assms
proof (induction xs arbitrary: s)
  case Nil
  then show ?case by simp
next
  case (Cons x xs)
  from Cons.prems(1) obtain s1 where s1: "f x s = Inr s1" and rest: "efold f xs s1 = Inr s'"
    by (auto simp: ebind_eq_Inr)
  from Cons.prems(3) [OF _ Cons.prems(2) s1] have "P s1" by simp
  show ?case
  proof (rule Cons.IH [OF rest \<open>P s1\<close>])
    fix y u u' assume "y \<in> set xs" and "P u" and "f y u = Inr u'"
    then show "P u'" using Cons.prems(3) [of y u u'] by simp
  qed
qed

lemma efold_related:
  assumes "efold f xs s = Inr s'" and "efold g xs t = Inr t'" and "Q s t"
    and "\<And>x s t s' t'. x \<in> set xs \<Longrightarrow> Q s t \<Longrightarrow> f x s = Inr s' \<Longrightarrow> g x t = Inr t' \<Longrightarrow> Q s' t'"
  shows "Q s' t'"
  using assms
proof (induction xs arbitrary: s t)
  case Nil
  then show ?case by simp
next
  case (Cons x xs)
  from Cons.prems(1) obtain s1 where s1: "f x s = Inr s1" and rs: "efold f xs s1 = Inr s'"
    by (auto simp: ebind_eq_Inr)
  from Cons.prems(2) obtain t1 where t1: "g x t = Inr t1" and rt: "efold g xs t1 = Inr t'"
    by (auto simp: ebind_eq_Inr)
  from Cons.prems(4) [OF _ Cons.prems(3) s1 t1] have "Q s1 t1" by simp
  show ?case
  proof (rule Cons.IH [OF rs rt \<open>Q s1 t1\<close>])
    fix y u w u' w' assume "y \<in> set xs" and "Q u w" and "f y u = Inr u'" and "g y w = Inr w'"
    then show "Q u' w'" using Cons.prems(4) [of y u w u' w'] by simp
  qed
qed

lemma efold_ok:
  assumes "P s"
    and "\<And>x s. x \<in> set xs \<Longrightarrow> P s \<Longrightarrow> \<exists>s'. f x s = Inr s' \<and> P s'"
  shows "\<exists>s'. efold f xs s = Inr s' \<and> P s'"
  using assms
proof (induction xs arbitrary: s)
  case Nil
  then show ?case by simp
next
  case (Cons x xs)
  from Cons.prems(2) [OF _ Cons.prems(1)] obtain s1 where s1: "f x s = Inr s1" and "P s1"
    by auto
  from Cons.IH [OF \<open>P s1\<close>] Cons.prems(2) obtain s' where "efold f xs s1 = Inr s'" and "P s'"
    by auto
  with s1 show ?case by simp
qed

lemma emap_eq_Inr:
  "emap f xs = Inr ys \<Longrightarrow> length ys = length xs \<and> (\<forall>i < length xs. f (xs ! i) = Inr (ys ! i))"
proof (induction xs arbitrary: ys)
  case Nil
  then show ?case by simp
next
  case (Cons x xs)
  from Cons.prems obtain y ys' where y: "f x = Inr y" and r: "emap f xs = Inr ys'"
    and ys: "ys = y # ys'"
    by (auto simp: ebind_eq_Inr)
  from Cons.IH [OF r] y show ?case
    by (auto simp: ys nth_Cons split: nat.splits)
qed

subsection \<open>The index dictionaries\<close>

lemma map_of_fold_dict_set:
  "distinct (map fst kvs) \<Longrightarrow>
   map_of (fold (\<lambda>(k, v) d. dict_set d k v) kvs d) = map_of d ++ map_of kvs"
proof (induction kvs arbitrary: d)
  case Nil
  then show ?case by simp
next
  case (Cons kv kvs)
  obtain k v where kv: "kv = (k, v)" by (cases kv)
  from Cons.prems have k: "k \<notin> dom (map_of kvs)" and d: "distinct (map fst kvs)"
    by (auto simp: kv dom_map_of_conv_image_fst)
  have "map_of (fold (\<lambda>(k, v) d. dict_set d k v) (kv # kvs) d)
      = map_of (dict_set d k v) ++ map_of kvs"
    using Cons.IH [OF d, of "dict_set d k v"] by (simp add: kv)
  also have "\<dots> = (map_of d)(k \<mapsto> v) ++ map_of kvs"
    by (simp only: map_of_dict_set)
  also have "\<dots> = (map_of d ++ map_of kvs)(k \<mapsto> v)"
    using k by (rule map_add_upd_left)
  also have "\<dots> = map_of d ++ map_of (kv # kvs)"
    by (simp add: kv)
  finally show ?case .
qed

lemma map_of_dict_of: "distinct (map fst kvs) \<Longrightarrow> map_of (dict_of kvs) = map_of kvs"
  by (simp add: dict_of_def map_of_fold_dict_set)

lemma map_of_fold_dict_set_Some:
  "map_of (fold (\<lambda>(k, v) d. dict_set d k v) kvs d) k = Some v \<Longrightarrow>
   (k, v) \<in> set kvs \<or> map_of d k = Some v"
proof (induction kvs arbitrary: d)
  case Nil
  then show ?case by simp
next
  case (Cons kv kvs)
  obtain k' v' where kv: "kv = (k', v')" by (cases kv)
  from Cons.prems have "map_of (fold (\<lambda>(k, v) d. dict_set d k v) kvs (dict_set d k' v')) k = Some v"
    by (simp add: kv)
  from Cons.IH [OF this] show ?case
    by (auto simp: kv map_of_dict_set split: if_splits)
qed

lemma map_of_dict_of_Some: "map_of (dict_of kvs) k = Some v \<Longrightarrow> (k, v) \<in> set kvs"
  using map_of_fold_dict_set_Some [of kvs "[]" k v] by (simp add: dict_of_def)

lemma length_sorted_uids: "length (sorted_uids itds) = length itds"
  by (simp add: sorted_uids_def dict_keys_def)

lemma set_sorted_uids: "set (sorted_uids itds) = set (dict_keys itds)"
  by (simp add: sorted_uids_def)

lemma idx2uid_get:
  assumes "i < length itds"
  shows "dict_get (idx2uid itds) i = Inr (sorted_uids itds ! i)"
proof -
  let ?e = "enumerate 0 (sorted_uids itds)"
  have d: "distinct (map fst ?e)" by simp
  have "(i, sorted_uids itds ! i) \<in> set ?e"
    using assms by (simp add: in_set_enumerate_eq length_sorted_uids)
  with d have "map_of ?e i = Some (sorted_uids itds ! i)" by simp
  then show ?thesis
    using map_of_dict_of [OF d] by (simp add: idx2uid_def dict_get_def sorted_uids_def)
qed

lemma uid2idx_range:
  assumes "dict_get (uid2idx itds) u = Inr j"
  shows "j < length itds \<and> sorted_uids itds ! j = u"
proof -
  from assms have "map_of (uid2idx itds) u = Some j" by (simp add: dict_get_eq_Inr)
  then have "(u, j) \<in> set (map (\<lambda>(i, uid). (uid, i)) (enumerate 0 (sorted_uids itds)))"
    unfolding uid2idx_def sorted_uids_def by (rule map_of_dict_of_Some)
  then have "(j, u) \<in> set (enumerate 0 (sorted_uids itds))" by auto
  then show ?thesis by (simp add: in_set_enumerate_eq length_sorted_uids)
qed

lemma uid2idx_get:
  assumes "distinct (map fst itds)" and "i < length itds"
  shows "dict_get (uid2idx itds) (sorted_uids itds ! i) = Inr i"
proof -
  let ?ps = "map (\<lambda>(i, uid). (uid, i)) (enumerate 0 (sorted_uids itds))"
  have "map fst ?ps = sorted_uids itds"
    by (simp add: comp_def case_prod_unfold)
  with assms(1) have d: "distinct (map fst ?ps)"
    by (simp add: sorted_uids_def dict_keys_def)
  have "(i, sorted_uids itds ! i) \<in> set (enumerate 0 (sorted_uids itds))"
    using assms(2) by (simp add: in_set_enumerate_eq length_sorted_uids)
  then have "(sorted_uids itds ! i, i) \<in> set ?ps" by force
  with d have "map_of ?ps (sorted_uids itds ! i) = Some i" by simp
  then show ?thesis
    using map_of_dict_of [OF d] by (simp add: uid2idx_def dict_get_def sorted_uids_def)
qed

section \<open>The steps of the bound solver\<close>

lemma mat_get_link_other:
  assumes "wf_mat n m" and "i < n" and "j < n" and "a \<noteq> i" and "a \<noteq> j"
  shows "mat_get (link m i j w) a b = mat_get m a b"
  using assms by (simp add: link_def Let_def mat_get_set [where n = n] wf_mat_set)

lemma strong_update_eq:
  assumes "i < length itds"
  shows "strong_update (idx2uid itds) (uid2idx itds) epsl i uid_j (mat_L, mat_R) =
     ebind (dict_get (uid2idx itds) uid_j) (\<lambda>j.
     ebind (dict_get epsl (sorted_uids itds ! i)) (\<lambda>e_i.
     ebind (dict_get epsl (sorted_uids itds ! j)) (\<lambda>e_j.
       Inr (link mat_L i j (1 / 2), mat_set (mat_set mat_R i j (- e_i)) j i (- e_j)))))"
proof (cases "dict_get (uid2idx itds) uid_j")
  case (Inl e)
  then show ?thesis by (simp add: strong_update_def)
next
  case (Inr j)
  from uid2idx_range [OF this] have "j < length itds" by simp
  with Inr assms show ?thesis
    by (simp add: strong_update_def idx2uid_get link_def Let_def)
qed

lemma weak_update_eq:
  assumes "i < length itds"
  shows "weak_update (idx2uid itds) (uid2idx itds) epsl theta i uid_j (mat_L, mat_R) =
     ebind (dict_get (uid2idx itds) uid_j) (\<lambda>j.
     ebind (dict_get epsl (sorted_uids itds ! i)) (\<lambda>e_i.
       Inr (link mat_L i j 1, mat_set (mat_set mat_R i j (- e_i * theta)) j i 0)))"
  using assms by (simp add: weak_update_def idx2uid_get link_def Let_def)

lemma row_update_eq:
  assumes "i < length itds"
  shows "row_update strong weak (idx2uid itds) (uid2idx itds) epsl theta i mats =
     ebind (efold (strong_update (idx2uid itds) (uid2idx itds) epsl i)
              (dd_get [] strong (sorted_uids itds ! i)) mats)
       (efold (weak_update (idx2uid itds) (uid2idx itds) epsl theta i)
              (dd_get [] weak (sorted_uids itds ! i)))"
  using assms by (simp add: row_update_def idx2uid_get)

lemma diag_update_eq:
  assumes "i < length itds"
  shows "diag_update (idx2uid itds) epsl mat_L i mat_R =
     (if mat_get mat_L i i \<noteq> 0
      then ebind (dict_get epsl (sorted_uids itds ! i)) (\<lambda>e_i.
             Inr (mat_set mat_R i i (e_i / mat_get mat_L i i)))
      else Inr mat_R)"
  using assms by (simp add: diag_update_def idx2uid_get)

lemma fill_relations_invariant:
  assumes ret: "fill_relations strong weak itds epsl theta s = Inr s'" and init: "P s"
    and st: "\<And>i uid_j s s'. i < length itds \<Longrightarrow>
        uid_j \<in> set (dd_get [] strong (sorted_uids itds ! i)) \<Longrightarrow> P s \<Longrightarrow>
        strong_update (idx2uid itds) (uid2idx itds) epsl i uid_j s = Inr s' \<Longrightarrow> P s'"
    and wk: "\<And>i uid_j s s'. i < length itds \<Longrightarrow>
        uid_j \<in> set (dd_get [] weak (sorted_uids itds ! i)) \<Longrightarrow> P s \<Longrightarrow>
        weak_update (idx2uid itds) (uid2idx itds) epsl theta i uid_j s = Inr s' \<Longrightarrow> P s'"
  shows "P s'"
proof (rule efold_invariant [where P = P, OF ret [unfolded fill_relations_def] init])
  fix i s s'
  assume i: "i \<in> set [0..<length itds]" and P: "P s"
    and row: "row_update strong weak (idx2uid itds) (uid2idx itds) epsl theta i s = Inr s'"
  from i have i': "i < length itds" by simp
  from row obtain s1 where
    s1: "efold (strong_update (idx2uid itds) (uid2idx itds) epsl i)
           (dd_get [] strong (sorted_uids itds ! i)) s = Inr s1"
    and s2: "efold (weak_update (idx2uid itds) (uid2idx itds) epsl theta i)
           (dd_get [] weak (sorted_uids itds ! i)) s1 = Inr s'"
    by (auto simp: row_update_eq [OF i'] ebind_eq_Inr)
  have "P s1"
    by (rule efold_invariant [where P = P, OF s1 P]) (rule st [OF i'])
  show "P s'"
    by (rule efold_invariant [where P = P, OF s2 \<open>P s1\<close>]) (rule wk [OF i'])
qed

lemma disclosure_eq:
  "disclosure itds mat_L mat_R =
     Inr (dict_of (map (\<lambda>i. (sorted_uids itds ! i,
            \<Sum>j\<leftarrow>[0..<length itds]. mat_get mat_L i j * mat_get mat_R j i)) [0..<length itds]))"
proof -
  have "emap (\<lambda>i. ebind (dict_get (idx2uid itds) i) (\<lambda>uid_i.
                      Inr (uid_i, \<Sum>j\<leftarrow>[0..<length itds]. mat_get mat_L i j * mat_get mat_R j i)))
              [0..<length itds]
     = Inr (map (\<lambda>i. (sorted_uids itds ! i,
            \<Sum>j\<leftarrow>[0..<length itds]. mat_get mat_L i j * mat_get mat_R j i)) [0..<length itds])"
    by (rule emap_Inr) (simp add: idx2uid_get)
  then show ?thesis by (simp add: disclosure_def)
qed

lemma disclosure_lookup:
  assumes "disclosure itds mat_L mat_R = Inr cidp" and "u \<in> set (dict_keys itds)"
  shows "\<exists>i < length itds. sorted_uids itds ! i = u \<and>
     dict_get cidp u = Inr (\<Sum>j\<leftarrow>[0..<length itds]. mat_get mat_L i j * mat_get mat_R j i)"
proof -
  let ?kvs = "map (\<lambda>i. (sorted_uids itds ! i,
            \<Sum>j\<leftarrow>[0..<length itds]. mat_get mat_L i j * mat_get mat_R j i)) [0..<length itds]"
  from assms(1) have cidp: "cidp = dict_of ?kvs" by (simp add: disclosure_eq)
  have "map fst ?kvs = sorted_uids itds"
    using map_nth [of "sorted_uids itds"] by (simp add: comp_def length_sorted_uids)
  with assms(2) have "u \<in> fst ` set ?kvs"
    by (metis set_map set_sorted_uids)
  moreover have "fst ` set (dict_of ?kvs) = fst ` set ?kvs"
  proof -
    have "fst ` set (fold (\<lambda>(k, v) d. dict_set d k v) kvs d) = fst ` set d \<union> fst ` set kvs"
      for kvs :: "(int \<times> real) list" and d
    proof (induction kvs arbitrary: d)
      case Nil
      then show ?case by simp
    next
      case (Cons kv kvs)
      obtain k v where kv: "kv = (k, v)" by (cases kv)
      show ?case
        using Cons.IH [of "dict_set d k v"] keys_dict_set [of d k v]
        by (auto simp: kv dict_keys_def)
    qed
    from this [of ?kvs "[]"] show ?thesis by (simp add: dict_of_def)
  qed
  ultimately have "u \<in> fst ` set cidp" by (simp add: cidp)
  then have "map_of cidp u \<noteq> None" by (simp add: map_of_eq_None_iff)
  then obtain c where c: "map_of cidp u = Some c" by auto
  then have "(u, c) \<in> set ?kvs" unfolding cidp by (rule map_of_dict_of_Some)
  then obtain i where "i < length itds" and "sorted_uids itds ! i = u"
    and "c = (\<Sum>j\<leftarrow>[0..<length itds]. mat_get mat_L i j * mat_get mat_R j i)"
    by auto
  with c show ?thesis by (auto simp: dict_get_def)
qed

lemma compute_CIDP_Inr:
  assumes "compute_CIDP so itds riskest epsl theta = Inr cidp"
  obtains weak R0 mat_L mat_R mat_R' where
    "find_weak_relations so riskest itds (find_strong_relations so riskest) = Inr weak"
    and "initial_R itds epsl = Inr R0"
    and "fill_relations (find_strong_relations so riskest) weak itds epsl theta
           (replicate (length itds) (replicate (length itds) 0), R0) = Inr (mat_L, mat_R)"
    and "fill_diagonal itds epsl mat_L mat_R = Inr mat_R'"
    and "disclosure itds mat_L mat_R' = Inr cidp"
  using assms
  by (auto simp: compute_CIDP_def Let_def ebind_eq_Inr split: prod.splits)

section \<open>Users without relations\<close>

lemma dd_get_in_set: "x \<in> set (dd_get [] d k) \<Longrightarrow> (k, dd_get [] d k) \<in> set d"
  by (cases "map_of d k") (auto simp: dd_get_def dest: map_of_SomeD)

lemma isolated_row_untouched:
  assumes su: "dd_get [] strong u = []" and wu: "dd_get [] weak u = []"
    and sl: "\<forall>(k, l) \<in> set strong. u \<notin> set l" and wl: "\<forall>(k, l) \<in> set weak. u \<notin> set l"
    and ret: "fill_relations strong weak itds epsl theta (mat_L, mat_R) = Inr (mat_L', mat_R')"
    and wf: "wf_mat (length itds) mat_L"
    and a: "a < length itds" and ua: "sorted_uids itds ! a = u"
  shows "wf_mat (length itds) mat_L' \<and> (\<forall>b. mat_get mat_L' a b = mat_get mat_L a b)"
proof -
  let ?n = "length itds"
  let ?P = "\<lambda>(L, R). wf_mat ?n L \<and> (\<forall>b. mat_get L a b = mat_get mat_L a b)"
  have step: "?P (link L i j w, R')"
    if P: "?P (L, R)" and i: "i < ?n" and j: "j < ?n"
      and x: "sorted_uids itds ! j \<in> set (dd_get [] rel (sorted_uids itds ! i))"
      and ru: "dd_get [] rel u = []" and rl: "\<forall>(k, l) \<in> set rel. u \<notin> set l"
    for L R R' i j w rel
  proof -
    from x ru ua have "a \<noteq> i" by auto
    from dd_get_in_set [OF x] rl have "u \<notin> set (dd_get [] rel (sorted_uids itds ! i))"
      by auto
    with x ua have "a \<noteq> j" by auto
    from P have "wf_mat ?n L" by simp
    from mat_get_link_other [OF this i j \<open>a \<noteq> i\<close> \<open>a \<noteq> j\<close>] P wf_mat_link [OF \<open>wf_mat ?n L\<close>]
    show ?thesis by simp
  qed
  have "?P (mat_L', mat_R')"
  proof (rule fill_relations_invariant [where P = ?P, OF ret])
    show "?P (mat_L, mat_R)" using wf by simp
  next
    fix i uid_j s s'
    assume i: "i < ?n" and x: "uid_j \<in> set (dd_get [] strong (sorted_uids itds ! i))"
      and P: "?P s"
      and up: "strong_update (idx2uid itds) (uid2idx itds) epsl i uid_j s = Inr s'"
    obtain L R where s: "s = (L, R)" by (cases s)
    from up obtain j R' where j: "dict_get (uid2idx itds) uid_j = Inr j"
      and s': "s' = (link L i j (1 / 2), R')"
      by (auto simp: s strong_update_eq [OF i] ebind_eq_Inr)
    from uid2idx_range [OF j] have "j < ?n" and "sorted_uids itds ! j = uid_j" by simp_all
    with step [of L R i j strong "1 / 2" R'] P i x su sl show "?P s'"
      by (simp add: s s')
  next
    fix i uid_j s s'
    assume i: "i < ?n" and x: "uid_j \<in> set (dd_get [] weak (sorted_uids itds ! i))"
      and P: "?P s"
      and up: "weak_update (idx2uid itds) (uid2idx itds) epsl theta i uid_j s = Inr s'"
    obtain L R where s: "s = (L, R)" by (cases s)
    from up obtain j R' where j: "dict_get (uid2idx itds) uid_j = Inr j"
      and s': "s' = (link L i j 1, R')"
      by (auto simp: s weak_update_eq [OF i] ebind_eq_Inr)
    from uid2idx_range [OF j] have "j < ?n" and "sorted_uids itds ! j = uid_j" by simp_all
    with step [of L R i j weak 1 R'] P i x wu wl show "?P s'"
      by (simp add: s s')
  qed
  then show ?thesis by simp
qed

text \<open>
  C1, as the code has it. A user of the population with no strong and no weak relation, in
  either direction, has an all-zero row in \<open>mat_L\<close>, so the solver assigns the disclosure
  value 0, whatever the budgets are.
\<close>

theorem isolated_user_zero:
  assumes iso: "isolated so itds riskest u"
    and ret: "compute_CIDP so itds riskest epsl theta = Inr cidp"
    and u: "u \<in> set (dict_keys itds)"
  shows "dict_get cidp u = Inr 0"
proof -
  let ?n = "length itds"
  let ?strong = "find_strong_relations so riskest"
  from ret obtain weak R0 mat_L mat_R mat_R' where
    weak: "find_weak_relations so riskest itds ?strong = Inr weak"
    and fill: "fill_relations ?strong weak itds epsl theta
           (replicate ?n (replicate ?n 0), R0) = Inr (mat_L, mat_R)"
    and disc: "disclosure itds mat_L mat_R' = Inr cidp"
    by (rule compute_CIDP_Inr)
  from iso weak have su: "dd_get [] ?strong u = []" and wu: "dd_get [] weak u = []"
    and sl: "\<forall>(k, l) \<in> set ?strong. u \<notin> set l" and wl: "\<forall>(k, l) \<in> set weak. u \<notin> set l"
    by (simp_all add: isolated_def Let_def)
  from disclosure_lookup [OF disc u] obtain i where i: "i < ?n"
    and ui: "sorted_uids itds ! i = u"
    and c: "dict_get cidp u = Inr (\<Sum>j\<leftarrow>[0..<?n]. mat_get mat_L i j * mat_get mat_R' j i)"
    by blast
  from isolated_row_untouched [OF su wu sl wl fill wf_mat_replicate i ui]
  have row: "mat_get mat_L i b = mat_get (replicate ?n (replicate ?n 0)) i b" for b
    by simp
  have zero: "mat_get mat_L i b = 0" if "b < ?n" for b
    using that i row [of b] by (simp add: mat_get_def)
  have "map (\<lambda>j. mat_get mat_L i j * mat_get mat_R' j i) [0..<?n] = map (\<lambda>j. 0) [0..<?n]"
    by (rule map_cong) (simp_all add: zero)
  then have "(\<Sum>j\<leftarrow>[0..<?n]. mat_get mat_L i j * mat_get mat_R' j i)
      = (\<Sum>j\<leftarrow>[0..<?n]. 0)"
    by (simp only:)
  then have "(\<Sum>j\<leftarrow>[0..<?n]. mat_get mat_L i j * mat_get mat_R' j i) = 0"
    by simp
  with c show ?thesis by simp
qed

theorem isolated_user_zero_witness:
  "isolated sorted_list_of_set example_solo example_solo_riskest 1 \<and>
   compute_CIDP sorted_list_of_set example_solo example_solo_riskest example_solo_epsl (1 / 4)
     = Inr [(1, 0)] \<and>
   1 \<in> set (dict_keys example_solo) \<and>
   dict_get [(1::int, 0::real)] 1 = Inr 0"
proof -
  have h1: "isolated sorted_list_of_set example_solo example_solo_riskest 1" by code_simp
  have h2: "compute_CIDP sorted_list_of_set example_solo example_solo_riskest example_solo_epsl
      (1 / 4) = Inr [(1, 0)]" by code_simp
  have h3: "1 \<in> set (dict_keys example_solo)" by code_simp
  from isolated_user_zero [OF h1 h2 h3] h1 h2 h3 show ?thesis by simp
qed

text \<open>
  C1 as stated fails: in a population of one user with budget \<open>1/10\<close> the disclosure
  value is 0, not the budget.
\<close>

theorem isolated_user_counterexample:
  "isolated sorted_list_of_set example_solo example_solo_riskest 1 \<and>
   compute_CIDP sorted_list_of_set example_solo example_solo_riskest example_solo_epsl (1 / 4)
     = Inr [(1, 0)] \<and>
   dict_get [(1::int, 0::real)] 1 \<noteq> dict_get example_solo_epsl 1"
  by code_simp

section \<open>Runs of the bound solver\<close>

lemma compute_CIDP_run:
  "compute_CIDP so itds riskest epsl theta = Inr cidp \<longleftrightarrow>
   (\<exists>mat_L mat_R mat_R'. solver_run so itds riskest epsl theta mat_L mat_R mat_R' cidp)"
  by (auto simp: compute_CIDP_def solver_run_def Let_def ebind_eq_Inr split: prod.splits)

lemma strong_irreflexive:
  assumes "set_order so" and "distinct (map fst riskest)"
    and "v \<in> set (dd_get [] (find_strong_relations so riskest) u)"
  shows "v \<noteq> u"
  using assms(3) by (simp add: strong_set [OF assms(1,2)])

lemma weak_members:
  assumes "find_weak_relations so riskest itds (find_strong_relations so riskest) = Inr weak"
    and "v \<in> set (dd_get [] weak u)"
  shows "v \<noteq> u \<and> u \<in> set (dict_keys itds) \<and> v \<in> set (dict_keys itds)"
proof -
  from weak_relations [of so riskest itds] assms(1)
  have "set (dd_get [] weak u) =
        {v. u \<in> set (dict_keys itds) \<and> v \<in> set (dict_keys itds) \<and>
            weak_rel riskest itds (find_strong_relations so riskest) u v}"
    by auto
  with assms(2) show ?thesis by (auto simp: weak_rel_def)
qed

lemma degree_matrix_zero: "degree_matrix n (replicate n (replicate n 0))"
  by (simp add: degree_matrix_def wf_mat_replicate mat_get_def)

lemma degree_matrix_link:
  assumes "degree_matrix n m" and "i < n" and "j < n" and "i \<noteq> j" and "0 < w"
  shows "degree_matrix n (link m i j w)"
proof -
  from assms(1) have wf: "wf_mat n m" by (simp add: degree_matrix_def)
  note g = mat_get_link [OF wf assms(2,3,4), of w]
  have "0 \<le> mat_get (link m i j w) a a" if "a < n" for a
    using that assms(1,5) by (auto simp: g degree_matrix_def intro: add_nonneg_nonneg)
  moreover have "mat_get (link m i j w) a b \<le> 0" if "a < n" and "b < n" and "a \<noteq> b" for a b
    using that assms(1) by (auto simp: g degree_matrix_def)
  moreover have "0 < mat_get (link m i j w) a a"
    if "a < n" and "b < n" and "mat_get (link m i j w) a b \<noteq> 0" for a b
  proof -
    have d: "0 \<le> mat_get m a a" using assms(1) that(1) by (simp add: degree_matrix_def)
    show ?thesis
    proof (cases "a = i \<or> a = j")
      case True
      with d assms(5) show ?thesis by (auto simp: g intro: add_nonneg_pos)
    next
      case False
      with that(3) have "mat_get m a b \<noteq> 0" by (simp add: g)
      with assms(1) that(1,2) have "0 < mat_get m a a" by (simp add: degree_matrix_def)
      with False show ?thesis by (simp add: g)
    qed
  qed
  ultimately show ?thesis using wf_mat_link [OF wf] by (simp add: degree_matrix_def)
qed

lemma fill_relations_related:
  assumes rs: "fill_relations strong weak itds epsl theta s = Inr s'"
    and rt: "fill_relations strong weak itds epsl' theta t = Inr t'"
    and init: "Q s t"
    and st: "\<And>i uid_j s t s' t'. i < length itds \<Longrightarrow>
        uid_j \<in> set (dd_get [] strong (sorted_uids itds ! i)) \<Longrightarrow> Q s t \<Longrightarrow>
        strong_update (idx2uid itds) (uid2idx itds) epsl i uid_j s = Inr s' \<Longrightarrow>
        strong_update (idx2uid itds) (uid2idx itds) epsl' i uid_j t = Inr t' \<Longrightarrow> Q s' t'"
    and wk: "\<And>i uid_j s t s' t'. i < length itds \<Longrightarrow>
        uid_j \<in> set (dd_get [] weak (sorted_uids itds ! i)) \<Longrightarrow> Q s t \<Longrightarrow>
        weak_update (idx2uid itds) (uid2idx itds) epsl theta i uid_j s = Inr s' \<Longrightarrow>
        weak_update (idx2uid itds) (uid2idx itds) epsl' theta i uid_j t = Inr t' \<Longrightarrow> Q s' t'"
  shows "Q s' t'"
proof (rule efold_related [where Q = Q, OF rs [unfolded fill_relations_def]
      rt [unfolded fill_relations_def] init])
  fix i s t s' t'
  assume i: "i \<in> set [0..<length itds]" and Q: "Q s t"
    and rows: "row_update strong weak (idx2uid itds) (uid2idx itds) epsl theta i s = Inr s'"
    and rowt: "row_update strong weak (idx2uid itds) (uid2idx itds) epsl' theta i t = Inr t'"
  from i have i': "i < length itds" by simp
  from rows obtain s1 where
    s1: "efold (strong_update (idx2uid itds) (uid2idx itds) epsl i)
           (dd_get [] strong (sorted_uids itds ! i)) s = Inr s1"
    and s2: "efold (weak_update (idx2uid itds) (uid2idx itds) epsl theta i)
           (dd_get [] weak (sorted_uids itds ! i)) s1 = Inr s'"
    by (auto simp: row_update_eq [OF i'] ebind_eq_Inr)
  from rowt obtain t1 where
    t1: "efold (strong_update (idx2uid itds) (uid2idx itds) epsl' i)
           (dd_get [] strong (sorted_uids itds ! i)) t = Inr t1"
    and t2: "efold (weak_update (idx2uid itds) (uid2idx itds) epsl' theta i)
           (dd_get [] weak (sorted_uids itds ! i)) t1 = Inr t'"
    by (auto simp: row_update_eq [OF i'] ebind_eq_Inr)
  have "Q s1 t1"
    by (rule efold_related [where Q = Q, OF s1 t1 Q]) (rule st [OF i'])
  show "Q s' t'"
    by (rule efold_related [where Q = Q, OF s2 t2 \<open>Q s1 t1\<close>]) (rule wk [OF i'])
qed

lemma dd_get_dict_get: "dict_get d k = Inr v \<Longrightarrow> dd_get dflt d k = v"
  by (simp add: dict_get_eq_Inr dd_get_def)

lemma budget_le_dd_get:
  assumes "budget_le epsl epsl'" and "dict_get epsl k = Inr e" and "dict_get epsl' k = Inr e'"
  shows "e \<le> e'"
  using assms by (auto simp: budget_le_def dict_get_eq_Inr)

lemma initial_R_Inr:
  assumes "initial_R itds epsl = Inr R0"
  shows "wf_mat (length itds) R0 \<and>
    (\<forall>a < length itds. \<exists>e. dict_get epsl (sorted_uids itds ! a) = Inr e \<and>
       (\<forall>b < length itds. mat_get R0 a b = - e))"
proof -
  let ?n = "length itds"
  from emap_eq_Inr [OF assms [unfolded initial_R_def]]
  have len: "length R0 = ?n"
    and rows: "\<And>i. i < ?n \<Longrightarrow>
      ebind (dict_get (idx2uid itds) i) (\<lambda>uid_i.
        ebind (dict_get epsl uid_i) (\<lambda>e_i. Inr (replicate ?n (- e_i)))) = Inr (R0 ! i)"
    by simp_all
  have row: "\<exists>e. dict_get epsl (sorted_uids itds ! a) = Inr e \<and> R0 ! a = replicate ?n (- e)"
    if "a < ?n" for a
    using rows [OF that] that by (auto simp: idx2uid_get ebind_eq_Inr)
  have "length r = ?n" if "r \<in> set R0" for r
  proof -
    from that obtain a where "a < length R0" and "R0 ! a = r"
      by (auto simp: in_set_conv_nth)
    with row [of a] len show ?thesis by auto
  qed
  with len have "wf_mat ?n R0" by (simp add: wf_mat_def)
  moreover have "\<exists>e. dict_get epsl (sorted_uids itds ! a) = Inr e \<and>
       (\<forall>b < ?n. mat_get R0 a b = - e)" if "a < ?n" for a
    using row [OF that] by (auto simp: mat_get_def)
  ultimately show ?thesis by blast
qed

lemma fill_diagonal_prefix:
  assumes "k \<le> length itds" and "wf_mat (length itds) mat_R"
    and "efold (diag_update (idx2uid itds) epsl mat_L) [0..<k] mat_R = Inr mat_R'"
  shows "wf_mat (length itds) mat_R' \<and>
    (\<forall>a < length itds. \<forall>b < length itds. mat_get mat_R' a b =
       (if a = b \<and> a < k \<and> mat_get mat_L a a \<noteq> 0
        then dd_get 0 epsl (sorted_uids itds ! a) / mat_get mat_L a a
        else mat_get mat_R a b))"
  using assms
proof (induction k arbitrary: mat_R')
  case 0
  then show ?case by simp
next
  case (Suc k)
  let ?n = "length itds"
  from Suc.prems(1) have k: "k < ?n" by simp
  from Suc.prems(3) obtain R1 where
    pre: "efold (diag_update (idx2uid itds) epsl mat_L) [0..<k] mat_R = Inr R1"
    and last: "diag_update (idx2uid itds) epsl mat_L k R1 = Inr mat_R'"
    by (auto simp: efold_append ebind_eq_Inr)
  from Suc.IH [OF _ Suc.prems(2) pre] k
  have wf1: "wf_mat ?n R1"
    and g1: "\<And>a b. a < ?n \<Longrightarrow> b < ?n \<Longrightarrow> mat_get R1 a b =
       (if a = b \<and> a < k \<and> mat_get mat_L a a \<noteq> 0
        then dd_get 0 epsl (sorted_uids itds ! a) / mat_get mat_L a a
        else mat_get mat_R a b)"
    by simp_all
  show ?case
  proof (cases "mat_get mat_L k k = 0")
    case True
    with last have "mat_R' = R1" by (simp add: diag_update_eq [OF k])
    with wf1 g1 True show ?thesis by (auto simp: less_Suc_eq)
  next
    case False
    with last obtain e where e: "dict_get epsl (sorted_uids itds ! k) = Inr e"
      and R': "mat_R' = mat_set R1 k k (e / mat_get mat_L k k)"
      by (auto simp: diag_update_eq [OF k] ebind_eq_Inr)
    from e have "dd_get 0 epsl (sorted_uids itds ! k) = e" by (rule dd_get_dict_get)
    with wf1 g1 k False show ?thesis
      by (auto simp: R' wf_mat_set mat_get_set [where n = ?n] less_Suc_eq)
  qed
qed

lemma fill_diagonal_Inr:
  assumes "wf_mat (length itds) mat_R" and "fill_diagonal itds epsl mat_L mat_R = Inr mat_R'"
  shows "wf_mat (length itds) mat_R' \<and>
    (\<forall>a < length itds. \<forall>b < length itds. mat_get mat_R' a b =
       (if a = b \<and> mat_get mat_L a a \<noteq> 0
        then dd_get 0 epsl (sorted_uids itds ! a) / mat_get mat_L a a
        else mat_get mat_R a b))"
  using fill_diagonal_prefix [OF le_refl assms(1) assms(2) [unfolded fill_diagonal_def]]
  by simp

lemma runs_rel_step:
  assumes Q: "runs_rel n epsl epsl' (L, R) (L', R')"
    and i: "i < n" and j: "j < n" and ij: "i \<noteq> j" and w: "0 < w"
    and le: "budget_le epsl epsl' \<Longrightarrow> x' \<le> x \<and> y' \<le> y"
  shows "runs_rel n epsl epsl'
      (link L i j w, mat_set (mat_set R i j x) j i y)
      (link L' i j w, mat_set (mat_set R' i j x') j i y')"
proof -
  from Q have L: "L' = L" and dm: "degree_matrix n L" and wR: "wf_mat n R" and wR': "wf_mat n R'"
    and ord: "budget_le epsl epsl' \<Longrightarrow> a < n \<Longrightarrow> b < n \<Longrightarrow> mat_get R' a b \<le> mat_get R a b"
    for a b
    by (simp_all add: runs_rel_def)
  have "mat_get (mat_set (mat_set R' i j x') j i y') a b
      \<le> mat_get (mat_set (mat_set R i j x) j i y) a b"
    if "budget_le epsl epsl'" and "a < n" and "b < n" for a b
    using le [OF that(1)] ord [OF that] i j wR wR'
    by (simp add: mat_get_set [where n = n] wf_mat_set)
  with L degree_matrix_link [OF dm i j ij w] wR wR' show ?thesis
    by (simp add: runs_rel_def wf_mat_set)
qed

lemma runs_related:
  assumes so: "set_order so" and dr: "distinct (map fst riskest)" and th: "0 \<le> theta"
    and weak: "find_weak_relations so riskest itds (find_strong_relations so riskest) = Inr weak"
    and R0: "initial_R itds epsl = Inr R0" and R0': "initial_R itds epsl' = Inr R0'"
    and f: "fill_relations (find_strong_relations so riskest) weak itds epsl theta
           (replicate (length itds) (replicate (length itds) 0), R0) = Inr s"
    and f': "fill_relations (find_strong_relations so riskest) weak itds epsl' theta
           (replicate (length itds) (replicate (length itds) 0), R0') = Inr s'"
  shows "runs_rel (length itds) epsl epsl' s s'"
proof (rule fill_relations_related [where Q = "runs_rel (length itds) epsl epsl'", OF f f'])
  let ?n = "length itds"
  from initial_R_Inr [OF R0] have w0: "wf_mat ?n R0"
    and e0: "\<And>a. a < ?n \<Longrightarrow> \<exists>e. dict_get epsl (sorted_uids itds ! a) = Inr e \<and>
       (\<forall>b < ?n. mat_get R0 a b = - e)"
    by simp_all
  from initial_R_Inr [OF R0'] have w0': "wf_mat ?n R0'"
    and e0': "\<And>a. a < ?n \<Longrightarrow> \<exists>e. dict_get epsl' (sorted_uids itds ! a) = Inr e \<and>
       (\<forall>b < ?n. mat_get R0' a b = - e)"
    by simp_all
  have "mat_get R0' a b \<le> mat_get R0 a b"
    if le: "budget_le epsl epsl'" and a: "a < ?n" and b: "b < ?n" for a b
  proof -
    from e0 [OF a] b obtain e where e: "dict_get epsl (sorted_uids itds ! a) = Inr e"
      and v: "mat_get R0 a b = - e" by auto
    from e0' [OF a] b obtain e' where e': "dict_get epsl' (sorted_uids itds ! a) = Inr e'"
      and v': "mat_get R0' a b = - e'" by auto
    from budget_le_dd_get [OF le e e'] v v' show ?thesis by simp
  qed
  with w0 w0' show "runs_rel ?n epsl epsl' (replicate ?n (replicate ?n 0), R0)
      (replicate ?n (replicate ?n 0), R0')"
    by (simp add: runs_rel_def degree_matrix_zero)
next
  let ?n = "length itds"
  fix i uid_j s t s' t'
  assume i: "i < ?n"
    and x: "uid_j \<in> set (dd_get [] (find_strong_relations so riskest) (sorted_uids itds ! i))"
    and Q: "runs_rel ?n epsl epsl' s t"
    and us: "strong_update (idx2uid itds) (uid2idx itds) epsl i uid_j s = Inr s'"
    and ut: "strong_update (idx2uid itds) (uid2idx itds) epsl' i uid_j t = Inr t'"
  obtain L R where s: "s = (L, R)" by (cases s)
  obtain L' R' where t: "t = (L', R')" by (cases t)
  from us obtain j e_i e_j where j: "dict_get (uid2idx itds) uid_j = Inr j"
    and ei: "dict_get epsl (sorted_uids itds ! i) = Inr e_i"
    and ej: "dict_get epsl (sorted_uids itds ! j) = Inr e_j"
    and s': "s' = (link L i j (1 / 2), mat_set (mat_set R i j (- e_i)) j i (- e_j))"
    by (auto simp: s strong_update_eq [OF i] ebind_eq_Inr)
  from ut j obtain e_i' e_j' where
    ei': "dict_get epsl' (sorted_uids itds ! i) = Inr e_i'"
    and ej': "dict_get epsl' (sorted_uids itds ! j) = Inr e_j'"
    and t': "t' = (link L' i j (1 / 2), mat_set (mat_set R' i j (- e_i')) j i (- e_j'))"
    by (auto simp: t strong_update_eq [OF i] ebind_eq_Inr)
  from uid2idx_range [OF j] have jn: "j < ?n" and uj: "sorted_uids itds ! j = uid_j"
    by simp_all
  from strong_irreflexive [OF so dr x] uj have ij: "i \<noteq> j" by auto
  have "- e_i' \<le> - e_i \<and> - e_j' \<le> - e_j" if "budget_le epsl epsl'"
    using budget_le_dd_get [OF that ei ei'] budget_le_dd_get [OF that ej ej'] by simp
  from runs_rel_step [OF Q [unfolded s t] i jn ij _ this, of "1 / 2"]
  show "runs_rel ?n epsl epsl' s' t'" by (simp add: s' t')
next
  let ?n = "length itds"
  fix i uid_j s t s' t'
  assume i: "i < ?n"
    and x: "uid_j \<in> set (dd_get [] weak (sorted_uids itds ! i))"
    and Q: "runs_rel ?n epsl epsl' s t"
    and us: "weak_update (idx2uid itds) (uid2idx itds) epsl theta i uid_j s = Inr s'"
    and ut: "weak_update (idx2uid itds) (uid2idx itds) epsl' theta i uid_j t = Inr t'"
  obtain L R where s: "s = (L, R)" by (cases s)
  obtain L' R' where t: "t = (L', R')" by (cases t)
  from us obtain j e_i where j: "dict_get (uid2idx itds) uid_j = Inr j"
    and ei: "dict_get epsl (sorted_uids itds ! i) = Inr e_i"
    and s': "s' = (link L i j 1, mat_set (mat_set R i j (- e_i * theta)) j i 0)"
    by (auto simp: s weak_update_eq [OF i] ebind_eq_Inr)
  from ut j obtain e_i' where
    ei': "dict_get epsl' (sorted_uids itds ! i) = Inr e_i'"
    and t': "t' = (link L' i j 1, mat_set (mat_set R' i j (- e_i' * theta)) j i 0)"
    by (auto simp: t weak_update_eq [OF i] ebind_eq_Inr)
  from uid2idx_range [OF j] have jn: "j < ?n" and uj: "sorted_uids itds ! j = uid_j"
    by simp_all
  from weak_members [OF weak x] uj have ij: "i \<noteq> j" by auto
  have "- e_i' * theta \<le> - e_i * theta \<and> (0::real) \<le> 0" if "budget_le epsl epsl'"
    using budget_le_dd_get [OF that ei ei'] th by (simp add: mult_right_mono)
  from runs_rel_step [OF Q [unfolded s t] i jn ij _ this, of 1]
  show "runs_rel ?n epsl epsl' s' t'" by (simp add: s' t')
qed

lemma disclosure_value:
  assumes dk: "distinct (map fst itds)" and i: "i < length itds"
    and disc: "disclosure itds mat_L mat_R = Inr cidp"
  shows "dict_get cidp (sorted_uids itds ! i) =
     Inr (\<Sum>j\<leftarrow>[0..<length itds]. mat_get mat_L i j * mat_get mat_R j i)"
proof -
  from i have "sorted_uids itds ! i \<in> set (dict_keys itds)"
    using set_sorted_uids [of itds] length_sorted_uids [of itds] nth_mem by metis
  from disclosure_lookup [OF disc this] obtain i' where i': "i' < length itds"
    and eq: "sorted_uids itds ! i' = sorted_uids itds ! i"
    and v: "dict_get cidp (sorted_uids itds ! i) =
      Inr (\<Sum>j\<leftarrow>[0..<length itds]. mat_get mat_L i' j * mat_get mat_R j i')"
    by blast
  from dk have "distinct (sorted_uids itds)" by (simp add: sorted_uids_def dict_keys_def)
  with eq i i' have "i' = i" by (simp add: nth_eq_iff_index_eq length_sorted_uids)
  with v show ?thesis by simp
qed

lemma run_degree_matrix:
  assumes so: "set_order so" and dr: "distinct (map fst riskest)" and th: "0 \<le> theta"
    and run: "solver_run so itds riskest epsl theta mat_L mat_R mat_R' cidp"
  shows "degree_matrix (length itds) mat_L \<and> wf_mat (length itds) mat_R"
proof -
  from run obtain weak R0 where
    weak: "find_weak_relations so riskest itds (find_strong_relations so riskest) = Inr weak"
    and R0: "initial_R itds epsl = Inr R0"
    and f: "fill_relations (find_strong_relations so riskest) weak itds epsl theta
          (replicate (length itds) (replicate (length itds) 0), R0) = Inr (mat_L, mat_R)"
    by (auto simp: solver_run_def)
  from runs_related [OF so dr th weak R0 R0 f f] show ?thesis
    by (simp add: runs_rel_def)
qed

lemma run_value:
  assumes so: "set_order so" and dr: "distinct (map fst riskest)" and th: "0 \<le> theta"
    and dk: "distinct (map fst itds)"
    and run: "solver_run so itds riskest epsl theta mat_L mat_R mat_R' cidp"
    and i: "i < length itds"
  shows "dict_get cidp (sorted_uids itds ! i) =
     Inr ((if mat_get mat_L i i \<noteq> 0 then dd_get 0 epsl (sorted_uids itds ! i) else 0) +
          (\<Sum>j \<in> {0..<length itds} - {i}. mat_get mat_L i j * mat_get mat_R j i))"
proof -
  let ?n = "length itds"
  from run_degree_matrix [OF so dr th run] have wR: "wf_mat ?n mat_R" by simp
  from run have fd: "fill_diagonal itds epsl mat_L mat_R = Inr mat_R'"
    and disc: "disclosure itds mat_L mat_R' = Inr cidp"
    by (auto simp: solver_run_def)
  from fill_diagonal_Inr [OF wR fd]
  have g: "\<And>a b. a < ?n \<Longrightarrow> b < ?n \<Longrightarrow> mat_get mat_R' a b =
       (if a = b \<and> mat_get mat_L a a \<noteq> 0
        then dd_get 0 epsl (sorted_uids itds ! a) / mat_get mat_L a a
        else mat_get mat_R a b)"
    by simp
  let ?f = "\<lambda>j. mat_get mat_L i j * mat_get mat_R' j i"
  have "(\<Sum>j\<leftarrow>[0..<?n]. ?f j) = sum ?f {0..<?n}"
    by (simp add: interv_sum_list_conv_sum_set_nat)
  also have "\<dots> = ?f i + sum ?f ({0..<?n} - {i})"
    using i by (intro sum.remove) simp_all
  also have "?f i = (if mat_get mat_L i i \<noteq> 0 then dd_get 0 epsl (sorted_uids itds ! i) else 0)"
    using i by (simp add: g)
  also have "sum ?f ({0..<?n} - {i})
      = (\<Sum>j \<in> {0..<?n} - {i}. mat_get mat_L i j * mat_get mat_R j i)"
    using i by (intro sum.cong) (simp_all add: g)
  finally show ?thesis
    using disclosure_value [OF dk i disc] by simp
qed

lemma run_value_isolated:
  assumes so: "set_order so" and dr: "distinct (map fst riskest)" and th: "0 \<le> theta"
    and dk: "distinct (map fst itds)"
    and run: "solver_run so itds riskest epsl theta mat_L mat_R mat_R' cidp"
    and i: "i < length itds" and z: "mat_get mat_L i i = 0"
  shows "dict_get cidp (sorted_uids itds ! i) = Inr 0"
proof -
  from run_degree_matrix [OF so dr th run] have dm: "degree_matrix (length itds) mat_L"
    by simp
  have "mat_get mat_L i j = 0" if "j < length itds" for j
    using dm i that z by (auto simp: degree_matrix_def)
  then have "(\<Sum>j \<in> {0..<length itds} - {i}. mat_get mat_L i j * mat_get mat_R j i) = 0"
    by (intro sum.neutral) simp
  with run_value [OF so dr th dk run i] z show ?thesis by simp
qed

lemma runs_compare:
  assumes so: "set_order so" and dr: "distinct (map fst riskest)" and th: "0 \<le> theta"
    and dk: "distinct (map fst itds)"
    and run: "solver_run so itds riskest epsl theta mat_L mat_R mat_R' cidp"
    and run': "solver_run so itds riskest epsl' theta mat_L2 mat_R2 mat_R2' cidp'"
    and i: "i < length itds"
    and c: "dict_get cidp (sorted_uids itds ! i) = Inr c"
    and c': "dict_get cidp' (sorted_uids itds ! i) = Inr c'"
  shows "mat_L2 = mat_L"
    and "budget_le epsl epsl' \<Longrightarrow> mat_get mat_L i i \<noteq> 0 \<Longrightarrow>
      dd_get 0 epsl' (sorted_uids itds ! i) - dd_get 0 epsl (sorted_uids itds ! i) \<le> c' - c"
proof -
  let ?n = "length itds"
  from run obtain weak R0 where
    weak: "find_weak_relations so riskest itds (find_strong_relations so riskest) = Inr weak"
    and R0: "initial_R itds epsl = Inr R0"
    and f: "fill_relations (find_strong_relations so riskest) weak itds epsl theta
          (replicate ?n (replicate ?n 0), R0) = Inr (mat_L, mat_R)"
    by (auto simp: solver_run_def)
  from run' weak obtain R0' where
    R0': "initial_R itds epsl' = Inr R0'"
    and f': "fill_relations (find_strong_relations so riskest) weak itds epsl' theta
          (replicate ?n (replicate ?n 0), R0') = Inr (mat_L2, mat_R2)"
    by (auto simp: solver_run_def)
  from runs_related [OF so dr th weak R0 R0' f f']
  have L: "mat_L2 = mat_L" and dm: "degree_matrix ?n mat_L"
    and ord: "\<And>a b. budget_le epsl epsl' \<Longrightarrow> a < ?n \<Longrightarrow> b < ?n \<Longrightarrow>
      mat_get mat_R2 a b \<le> mat_get mat_R a b"
    by (simp_all add: runs_rel_def)
  show "mat_L2 = mat_L" by (rule L)
  assume le: "budget_le epsl epsl'" and nz: "mat_get mat_L i i \<noteq> 0"
  have off: "(\<Sum>j \<in> {0..<?n} - {i}. mat_get mat_L i j * mat_get mat_R j i)
      \<le> (\<Sum>j \<in> {0..<?n} - {i}. mat_get mat_L i j * mat_get mat_R2 j i)"
  proof (rule sum_mono)
    fix j assume "j \<in> {0..<?n} - {i}"
    then have j: "j < ?n" and ji: "i \<noteq> j" by auto
    from dm i j ji have "mat_get mat_L i j \<le> 0" by (simp add: degree_matrix_def)
    with ord [OF le j i]
    show "mat_get mat_L i j * mat_get mat_R j i \<le> mat_get mat_L i j * mat_get mat_R2 j i"
      by (rule mult_left_mono_neg)
  qed
  from run_value [OF so dr th dk run i] c nz
  have cv: "c = dd_get 0 epsl (sorted_uids itds ! i) +
      (\<Sum>j \<in> {0..<?n} - {i}. mat_get mat_L i j * mat_get mat_R j i)"
    by simp
  from run_value [OF so dr th dk run' i] c' nz L
  have cv': "c' = dd_get 0 epsl' (sorted_uids itds ! i) +
      (\<Sum>j \<in> {0..<?n} - {i}. mat_get mat_L i j * mat_get mat_R2 j i)"
    by simp
  from off show "dd_get 0 epsl' (sorted_uids itds ! i) - dd_get 0 epsl (sorted_uids itds ! i)
      \<le> c' - c"
    by (simp add: cv cv')
qed

section \<open>Monotonicity of the disclosure value\<close>

lemma add_budget_Inr:
  assumes "add_budget beta k e = Inr e'"
  shows "\<exists>v. map_of e k = Some v \<and> map_of e' = (map_of e)(k \<mapsto> v + beta)"
  using assms by (auto simp: add_budget_def ebind_eq_Inr dict_get_eq_Inr map_of_dict_set)

lemma sub_budget_add: "sub_budget beta = add_budget (- beta)"
  by (rule ext)+ (simp add: sub_budget_def add_budget_def)

lemma add_budget_fold_mono:
  assumes "efold (add_budget beta) uids epsl = Inr epsl'" and "0 \<le> beta"
  shows "\<forall>k. (map_of epsl' k = None \<longleftrightarrow> map_of epsl k = None) \<and>
             dd_get 0 epsl k \<le> dd_get 0 epsl' k"
proof (rule efold_invariant [where P = "\<lambda>e. \<forall>k. (map_of e k = None \<longleftrightarrow> map_of epsl k = None) \<and>
             dd_get 0 epsl k \<le> dd_get 0 e k", OF assms(1)])
  show "\<forall>k. (map_of epsl k = None \<longleftrightarrow> map_of epsl k = None) \<and> dd_get 0 epsl k \<le> dd_get 0 epsl k"
    by simp
next
  fix x e e'
  assume P: "\<forall>k. (map_of e k = None \<longleftrightarrow> map_of epsl k = None) \<and> dd_get 0 epsl k \<le> dd_get 0 e k"
    and step: "add_budget beta x e = Inr e'"
  from add_budget_Inr [OF step] obtain v where v: "map_of e x = Some v"
    and m: "map_of e' = (map_of e)(x \<mapsto> v + beta)" by blast
  show "\<forall>k. (map_of e' k = None \<longleftrightarrow> map_of epsl k = None) \<and> dd_get 0 epsl k \<le> dd_get 0 e' k"
  proof
    fix k
    from P have Pk: "(map_of e k = None \<longleftrightarrow> map_of epsl k = None)"
      and le: "dd_get 0 epsl k \<le> dd_get 0 e k" by simp_all
    show "(map_of e' k = None \<longleftrightarrow> map_of epsl k = None) \<and> dd_get 0 epsl k \<le> dd_get 0 e' k"
    proof (cases "k = x")
      case True
      with v have "dd_get 0 e k = v" by (simp add: dd_get_def)
      with True m le Pk v assms(2) show ?thesis by (auto simp: dd_get_def)
    next
      case False
      with m have "map_of e' k = map_of e k" by simp
      with Pk le show ?thesis by (simp add: dd_get_def)
    qed
  qed
qed

lemma add_budget_fold_member:
  assumes "efold (add_budget beta) uids epsl = Inr epsl'" and "0 \<le> beta" and "u \<in> set uids"
  shows "dd_get 0 epsl u + beta \<le> dd_get 0 epsl' u"
  using assms(1,3)
proof (induction uids arbitrary: epsl)
  case Nil
  then show ?case by simp
next
  case (Cons x uids)
  from Cons.prems(1) obtain e1 where e1: "add_budget beta x epsl = Inr e1"
    and rest: "efold (add_budget beta) uids e1 = Inr epsl'"
    by (auto simp: ebind_eq_Inr)
  from add_budget_Inr [OF e1] obtain v where v: "map_of epsl x = Some v"
    and m: "map_of e1 = (map_of epsl)(x \<mapsto> v + beta)" by blast
  show ?case
  proof (cases "u = x")
    case True
    with v m have "dd_get 0 e1 u = dd_get 0 epsl u + beta" by (simp add: dd_get_def)
    with add_budget_fold_mono [OF rest assms(2)] show ?thesis by (metis)
  next
    case False
    with Cons.prems(2) have "u \<in> set uids" by simp
    from Cons.IH [OF rest this] False m show ?thesis by (simp add: dd_get_def)
  qed
qed

lemma budget_le_dd_getI:
  assumes "\<forall>k. dd_get 0 epsl k \<le> dd_get 0 epsl' k"
  shows "budget_le epsl epsl'"
  unfolding budget_le_def
proof (intro allI impI)
  fix k e e' assume "map_of epsl k = Some e \<and> map_of epsl' k = Some e'"
  with assms [rule_format, of k] show "e \<le> e'" by (simp add: dd_get_def)
qed

lemma cidp_key_index:
  assumes "solver_run so itds riskest epsl theta mat_L mat_R mat_R' cidp"
    and "dict_get cidp u = Inr c"
  shows "\<exists>i < length itds. sorted_uids itds ! i = u"
proof -
  from assms(1) have "disclosure itds mat_L mat_R' = Inr cidp" by (auto simp: solver_run_def)
  then have "cidp = dict_of (map (\<lambda>i. (sorted_uids itds ! i,
            \<Sum>j\<leftarrow>[0..<length itds]. mat_get mat_L i j * mat_get mat_R' j i)) [0..<length itds])"
    by (simp add: disclosure_eq)
  with assms(2) have "(u, c) \<in> set (map (\<lambda>i. (sorted_uids itds ! i,
            \<Sum>j\<leftarrow>[0..<length itds]. mat_get mat_L i j * mat_get mat_R' j i)) [0..<length itds])"
    by (auto simp: dict_get_eq_Inr dest: map_of_dict_of_Some)
  then show ?thesis by auto
qed

lemma compute_CIDP_monotone:
  assumes so: "set_order so" and dr: "distinct (map fst riskest)" and dk: "distinct (map fst itds)"
    and th: "0 \<le> theta"
    and le: "\<forall>k. dd_get 0 epsl k \<le> dd_get 0 epsl' k"
    and r: "compute_CIDP so itds riskest epsl theta = Inr cidp"
    and r': "compute_CIDP so itds riskest epsl' theta = Inr cidp'"
    and c: "dict_get cidp u = Inr c" and c': "dict_get cidp' u = Inr c'"
  shows "c \<le> c'"
proof -
  from r obtain mat_L mat_R mat_R' where
    run: "solver_run so itds riskest epsl theta mat_L mat_R mat_R' cidp"
    by (auto simp: compute_CIDP_run)
  from r' obtain mat_L2 mat_R2 mat_R2' where
    run': "solver_run so itds riskest epsl' theta mat_L2 mat_R2 mat_R2' cidp'"
    by (auto simp: compute_CIDP_run)
  from cidp_key_index [OF run c] obtain i where i: "i < length itds"
    and ui: "sorted_uids itds ! i = u" by blast
  note cmp = runs_compare [OF so dr th dk run run' i c [folded ui] c' [folded ui]]
  show ?thesis
  proof (cases "mat_get mat_L i i = 0")
    case True
    from run_value_isolated [OF so dr th dk run i True] c ui have "c = 0" by simp
    moreover from run_value_isolated [OF so dr th dk run' i] True cmp(1) c' ui have "c' = 0"
      by simp
    ultimately show ?thesis by simp
  next
    case False
    from cmp(2) [OF budget_le_dd_getI [OF le] False] le [rule_format, of u] ui
    show ?thesis by simp
  qed
qed

text \<open>
  C4. Let \<open>epsl'\<close> be \<open>epsl\<close> after the optimizer's step
  \<^verbatim>\<open>for uid_ in affected[u]: epsl[uid_] += beta\<close> with \<open>beta > 0\<close>, and let the solver
  return for both budget vectors, with \<open>theta\<close> in \<open>(0, 1)\<close>. Then the disclosure value
  of \<open>u\<close> under \<open>epsl'\<close> is at least its value under \<open>epsl\<close>.
\<close>

theorem disclosure_monotone:
  assumes "set_order so" and "distinct (map fst riskest)" and "distinct (map fst itds)"
    and "0 < theta" and "theta < 1" and "0 < beta"
    and "affected_by so riskest itds = Inr affected" and "dict_get affected u = Inr uids"
    and "efold (add_budget beta) uids epsl = Inr epsl'"
    and "compute_CIDP so itds riskest epsl theta = Inr cidp"
    and "compute_CIDP so itds riskest epsl' theta = Inr cidp'"
    and "dict_get cidp u = Inr c" and "dict_get cidp' u = Inr c'"
  shows "c \<le> c'"
proof -
  from assms(6) have "0 \<le> beta" by simp
  from add_budget_fold_mono [OF assms(9) this]
  have le: "\<forall>k. dd_get 0 epsl k \<le> dd_get 0 epsl' k" by simp
  from assms(4) have th: "0 \<le> theta" by simp
  show ?thesis
    by (rule compute_CIDP_monotone [OF assms(1,2,3) th le assms(10,11,12,13)])
qed

theorem disclosure_monotone_witness:
  "set_order sorted_list_of_set \<and> distinct (map fst example_riskest) \<and>
   distinct (map fst example_itds) \<and> (0::real) < 1 / 4 \<and> (1::real) / 4 < 1 \<and> (0::real) < 1 / 20 \<and>
   affected_by sorted_list_of_set example_riskest example_itds = Inr [(1, [1, 2]), (2, [2, 1])] \<and>
   dict_get [(1::int, [1, 2::int]), (2, [2, 1])] 1 = Inr [1, 2] \<and>
   efold (add_budget (1 / 20)) [1, 2] example_epsl = Inr [(1, 3 / 20), (2, 3 / 20)] \<and>
   compute_CIDP sorted_list_of_set example_itds example_riskest example_epsl (1 / 4)
     = Inr [(1, 1 / 5), (2, 1 / 5)] \<and>
   compute_CIDP sorted_list_of_set example_itds example_riskest [(1, 3 / 20), (2, 3 / 20)] (1 / 4)
     = Inr [(1, 3 / 10), (2, 3 / 10)] \<and>
   dict_get [(1::int, 1 / 5 :: real), (2, 1 / 5)] 1 = Inr (1 / 5) \<and>
   dict_get [(1::int, 3 / 10 :: real), (2, 3 / 10)] 1 = Inr (3 / 10) \<and>
   (1::real) / 5 \<le> 3 / 10"
proof -
  have h1: "set_order sorted_list_of_set" by (simp add: set_order_def)
  have h2: "distinct (map fst example_riskest)" by (simp add: example_riskest_def)
  have h3: "distinct (map fst example_itds)" by (simp add: example_itds_def)
  have h4: "(0::real) < 1 / 4" and h5: "(1::real) / 4 < 1" and h6: "(0::real) < 1 / 20"
    by simp_all
  have h7: "affected_by sorted_list_of_set example_riskest example_itds
      = Inr [(1, [1, 2]), (2, [2, 1])]" by code_simp
  have h8: "dict_get [(1::int, [1, 2::int]), (2, [2, 1])] 1 = Inr [1, 2]" by code_simp
  have h9: "efold (add_budget (1 / 20)) [1, 2] example_epsl = Inr [(1, 3 / 20), (2, 3 / 20)]"
    by code_simp
  have h10: "compute_CIDP sorted_list_of_set example_itds example_riskest example_epsl (1 / 4)
     = Inr [(1, 1 / 5), (2, 1 / 5)]" by code_simp
  have h11: "compute_CIDP sorted_list_of_set example_itds example_riskest
      [(1, 3 / 20), (2, 3 / 20)] (1 / 4) = Inr [(1, 3 / 10), (2, 3 / 10)]" by code_simp
  have h12: "dict_get [(1::int, 1 / 5 :: real), (2, 1 / 5)] 1 = Inr (1 / 5)" by code_simp
  have h13: "dict_get [(1::int, 3 / 10 :: real), (2, 3 / 10)] 1 = Inr (3 / 10)" by code_simp
  from disclosure_monotone [OF h1 h2 h3 h4 h5 h6 h7 h8 h9 h10 h11 h12 h13]
  have "(1::real) / 5 \<le> 3 / 10" .
  with h1 h2 h3 h4 h5 h6 h7 h8 h9 h10 h11 h12 h13 show ?thesis by blast
qed

section \<open>Users with relations of their own\<close>

lemma link_facts:
  assumes "degree_matrix n m" and "i < n" and "j < n" and "i \<noteq> j" and "0 < w"
  shows "degree_matrix n (link m i j w) \<and>
     (\<forall>a<n. mat_get m a a \<le> mat_get (link m i j w) a a) \<and>
     0 < mat_get (link m i j w) i i"
proof -
  from assms(1) have wf: "wf_mat n m" and d: "\<And>a. a < n \<Longrightarrow> 0 \<le> mat_get m a a"
    by (simp_all add: degree_matrix_def)
  note g = mat_get_link [OF wf assms(2,3,4), of w]
  have "mat_get m a a \<le> mat_get (link m i j w) a a" if "a < n" for a
    using assms(5) by (simp add: g)
  moreover have "0 < mat_get (link m i j w) i i"
    using d [OF assms(2)] assms(5) by (simp add: g add_nonneg_pos)
  ultimately show ?thesis using degree_matrix_link [OF assms] by blast
qed

lemma strong_update_link:
  assumes "set_order so" and "distinct (map fst riskest)" and "i < length itds"
    and "x \<in> set (dd_get [] (find_strong_relations so riskest) (sorted_uids itds ! i))"
    and "strong_update (idx2uid itds) (uid2idx itds) epsl i x (L, R) = Inr (L', R')"
  shows "\<exists>j w. j < length itds \<and> i \<noteq> j \<and> 0 < w \<and> L' = link L i j w"
proof -
  from assms(5) obtain j where j: "dict_get (uid2idx itds) x = Inr j"
    and L': "L' = link L i j (1 / 2)"
    by (auto simp: strong_update_eq [OF assms(3)] ebind_eq_Inr)
  from uid2idx_range [OF j] have "j < length itds" and uj: "sorted_uids itds ! j = x"
    by simp_all
  moreover from strong_irreflexive [OF assms(1,2,4)] uj have "i \<noteq> j" by auto
  ultimately show ?thesis using L' by (intro exI [of _ j] exI [of _ "1 / 2"]) simp
qed

lemma weak_update_link:
  assumes "find_weak_relations so riskest itds (find_strong_relations so riskest) = Inr weak"
    and "i < length itds"
    and "x \<in> set (dd_get [] weak (sorted_uids itds ! i))"
    and "weak_update (idx2uid itds) (uid2idx itds) epsl theta i x (L, R) = Inr (L', R')"
  shows "\<exists>j w. j < length itds \<and> i \<noteq> j \<and> 0 < w \<and> L' = link L i j w"
proof -
  from assms(4) obtain j where j: "dict_get (uid2idx itds) x = Inr j"
    and L': "L' = link L i j 1"
    by (auto simp: weak_update_eq [OF assms(2)] ebind_eq_Inr)
  from uid2idx_range [OF j] have "j < length itds" and uj: "sorted_uids itds ! j = x"
    by simp_all
  moreover from weak_members [OF assms(1,3)] uj have "i \<noteq> j" by auto
  ultimately show ?thesis using L' by (intro exI [of _ j] exI [of _ 1]) simp
qed

text \<open>Any list of updates of one row keeps a property that each update keeps.\<close>

lemma row_update_invariant:
  assumes so: "set_order so" and dr: "distinct (map fst riskest)"
    and weak: "find_weak_relations so riskest itds (find_strong_relations so riskest) = Inr weak"
    and i: "i < length itds"
    and row: "row_update (find_strong_relations so riskest) weak (idx2uid itds) (uid2idx itds)
        epsl theta i (L, R) = Inr (L', R')"
    and init: "P L"
    and step: "\<And>m j w. P m \<Longrightarrow> j < length itds \<Longrightarrow> i \<noteq> j \<Longrightarrow> 0 < w \<Longrightarrow> P (link m i j w)"
  shows "P L'"
proof -
  let ?strong = "find_strong_relations so riskest"
  from row obtain s1 where
    s1: "efold (strong_update (idx2uid itds) (uid2idx itds) epsl i)
           (dd_get [] ?strong (sorted_uids itds ! i)) (L, R) = Inr s1"
    and s2: "efold (weak_update (idx2uid itds) (uid2idx itds) epsl theta i)
           (dd_get [] weak (sorted_uids itds ! i)) s1 = Inr (L', R')"
    by (auto simp: row_update_eq [OF i] ebind_eq_Inr)
  have P1: "(\<lambda>(m, r). P m) s1"
  proof (rule efold_invariant [where P = "\<lambda>(m, r). P m", OF s1])
    show "(\<lambda>(m, r). P m) (L, R)" using init by simp
  next
    fix x s s'
    assume x: "x \<in> set (dd_get [] ?strong (sorted_uids itds ! i))"
      and P: "(\<lambda>(m, r). P m) s"
      and up: "strong_update (idx2uid itds) (uid2idx itds) epsl i x s = Inr s'"
    obtain m r where s: "s = (m, r)" by (cases s)
    obtain m' r' where s': "s' = (m', r')" by (cases s')
    from strong_update_link [OF so dr i x up [unfolded s s']] P step
    show "(\<lambda>(m, r). P m) s'" by (auto simp: s s')
  qed
  have "(\<lambda>(m, r). P m) (L', R')"
  proof (rule efold_invariant [where P = "\<lambda>(m, r). P m", OF s2 P1])
    fix x s s'
    assume x: "x \<in> set (dd_get [] weak (sorted_uids itds ! i))"
      and P: "(\<lambda>(m, r). P m) s"
      and up: "weak_update (idx2uid itds) (uid2idx itds) epsl theta i x s = Inr s'"
    obtain m r where s: "s = (m, r)" by (cases s)
    obtain m' r' where s': "s' = (m', r')" by (cases s')
    from weak_update_link [OF weak i x up [unfolded s s']] P step
    show "(\<lambda>(m, r). P m) s'" by (auto simp: s s')
  qed
  then show ?thesis by simp
qed

lemma rows_invariant:
  assumes so: "set_order so" and dr: "distinct (map fst riskest)"
    and weak: "find_weak_relations so riskest itds (find_strong_relations so riskest) = Inr weak"
    and xs: "\<forall>i \<in> set xs. i < length itds"
    and rows: "efold (row_update (find_strong_relations so riskest) weak (idx2uid itds)
        (uid2idx itds) epsl theta) xs (L, R) = Inr (L', R')"
    and init: "P L"
    and step: "\<And>m i j w. P m \<Longrightarrow> i < length itds \<Longrightarrow> j < length itds \<Longrightarrow> i \<noteq> j \<Longrightarrow> 0 < w \<Longrightarrow>
        P (link m i j w)"
  shows "P L'"
proof -
  have "(\<lambda>(m, r). P m) (L', R')"
  proof (rule efold_invariant [where P = "\<lambda>(m, r). P m", OF rows])
    show "(\<lambda>(m, r). P m) (L, R)" using init by simp
  next
    fix i s s'
    assume i: "i \<in> set xs" and P: "(\<lambda>(m, r). P m) s"
      and row: "row_update (find_strong_relations so riskest) weak (idx2uid itds)
        (uid2idx itds) epsl theta i s = Inr s'"
    obtain m r where s: "s = (m, r)" by (cases s)
    obtain m' r' where s': "s' = (m', r')" by (cases s')
    from i xs have i': "i < length itds" by simp
    have "P m'"
    proof (rule row_update_invariant [where P = P, OF so dr weak i' row [unfolded s s']])
      show "P m" using P by (simp add: s)
    next
      fix m j and w :: real assume "P m" and "j < length itds" and "i \<noteq> j" and "0 < w"
      then show "P (link m i j w)" using step i' by simp
    qed
    then show "(\<lambda>(m, r). P m) s'" by (simp add: s')
  qed
  then show ?thesis by simp
qed

lemma row_update_progress:
  assumes so: "set_order so" and dr: "distinct (map fst riskest)"
    and weak: "find_weak_relations so riskest itds (find_strong_relations so riskest) = Inr weak"
    and i: "i < length itds"
    and row: "row_update (find_strong_relations so riskest) weak (idx2uid itds) (uid2idx itds)
        epsl theta i (L, R) = Inr (L', R')"
    and dm: "degree_matrix (length itds) L"
    and own: "dd_get [] (find_strong_relations so riskest) (sorted_uids itds ! i) \<noteq> [] \<or>
              dd_get [] weak (sorted_uids itds ! i) \<noteq> []"
  shows "degree_matrix (length itds) L' \<and> 0 < mat_get L' i i"
proof -
  let ?n = "length itds"
  let ?strong = "find_strong_relations so riskest"
  let ?G = "\<lambda>(m, r). degree_matrix ?n m \<and> 0 < mat_get m i i"
  let ?D = "\<lambda>(m, r). degree_matrix ?n m"
  let ?fs = "strong_update (idx2uid itds) (uid2idx itds) epsl i"
  let ?fw = "weak_update (idx2uid itds) (uid2idx itds) epsl theta i"
  from row obtain s1 where
    s1: "efold ?fs (dd_get [] ?strong (sorted_uids itds ! i)) (L, R) = Inr s1"
    and s2: "efold ?fw (dd_get [] weak (sorted_uids itds ! i)) s1 = Inr (L', R')"
    by (auto simp: row_update_eq [OF i] ebind_eq_Inr)
  have st: "?G s'" if "x \<in> set (dd_get [] ?strong (sorted_uids itds ! i))" and "?D s"
    and "?fs x s = Inr s'" for x s s'
  proof -
    obtain m r where s: "s = (m, r)" by (cases s)
    obtain m' r' where s': "s' = (m', r')" by (cases s')
    from strong_update_link [OF so dr i that(1) that(3) [unfolded s s']] that(2)
    show ?thesis using link_facts [of ?n m i] i by (auto simp: s s')
  qed
  have wk: "?G s'" if "x \<in> set (dd_get [] weak (sorted_uids itds ! i))" and "?D s"
    and "?fw x s = Inr s'" for x s s'
  proof -
    obtain m r where s: "s = (m, r)" by (cases s)
    obtain m' r' where s': "s' = (m', r')" by (cases s')
    from weak_update_link [OF weak i that(1) that(3) [unfolded s s']] that(2)
    show ?thesis using link_facts [of ?n m i] i by (auto simp: s s')
  qed
  have all: "?G t'" if "efold f xs t = Inr t'" and "xs \<noteq> []" and "?D t"
    and "\<And>x s s'. x \<in> set xs \<Longrightarrow> ?D s \<Longrightarrow> f x s = Inr s' \<Longrightarrow> ?G s'"
    for f :: "int \<Rightarrow> matrix \<times> matrix \<Rightarrow> (matrix \<times> matrix) result" and xs t t'
  proof -
    from that(2) obtain x xs' where xs: "xs = x # xs'" by (cases xs) auto
    from that(1) obtain t1 where t1: "f x t = Inr t1" and rest: "efold f xs' t1 = Inr t'"
      by (auto simp: xs ebind_eq_Inr)
    from that(4) [OF _ that(3) t1] have G1: "?G t1" by (simp add: xs)
    show ?thesis
    proof (rule efold_invariant [where P = ?G, OF rest G1])
      fix y s s' assume "y \<in> set xs'" and "?G s" and "f y s = Inr s'"
      then show "?G s'" using that(4) [of y s s'] by (auto simp: xs)
    qed
  qed
  have D1: "?D s1"
  proof (rule efold_invariant [where P = ?D, OF s1])
    show "?D (L, R)" using dm by simp
  next
    fix x s s' assume "x \<in> set (dd_get [] ?strong (sorted_uids itds ! i))" and "?D s"
      and "?fs x s = Inr s'"
    from st [OF this] show "?D s'" by auto
  qed
  show ?thesis
  proof (cases "dd_get [] weak (sorted_uids itds ! i) = []")
    case False
    from all [OF s2 False D1] wk show ?thesis by simp
  next
    case True
    with s2 have eq: "s1 = (L', R')" by simp
    from True own have "dd_get [] ?strong (sorted_uids itds ! i) \<noteq> []" by simp
    from all [OF s1 this] dm st have "?G s1" by simp
    with eq show ?thesis by simp
  qed
qed

lemma own_relation_degree_pos:
  assumes so: "set_order so" and dr: "distinct (map fst riskest)"
    and weak: "find_weak_relations so riskest itds (find_strong_relations so riskest) = Inr weak"
    and fill: "fill_relations (find_strong_relations so riskest) weak itds epsl theta
        (replicate (length itds) (replicate (length itds) 0), R0) = Inr (L, R)"
    and i: "i < length itds"
    and own: "dd_get [] (find_strong_relations so riskest) (sorted_uids itds ! i) \<noteq> [] \<or>
              dd_get [] weak (sorted_uids itds ! i) \<noteq> []"
  shows "0 < mat_get L i i"
proof -
  let ?n = "length itds"
  let ?f = "row_update (find_strong_relations so riskest) weak (idx2uid itds) (uid2idx itds)
        epsl theta"
  have split: "[0..<?n] = [0..<i] @ i # [Suc i..<?n]"
    using i by (metis le0 upt_add_eq_append upt_conv_Cons le_add_diff_inverse less_imp_le_nat)
  from fill obtain s1 s2 where
    pre: "efold ?f [0..<i] (replicate ?n (replicate ?n 0), R0) = Inr s1"
    and mid: "?f i s1 = Inr s2"
    and post: "efold ?f [Suc i..<?n] s2 = Inr (L, R)"
    unfolding fill_relations_def split by (auto simp: efold_append ebind_eq_Inr)
  obtain L1 R1 where s1: "s1 = (L1, R1)" by (cases s1)
  obtain L2 R2 where s2: "s2 = (L2, R2)" by (cases s2)
  have "degree_matrix ?n L1"
  proof (rule rows_invariant [where P = "degree_matrix ?n", OF so dr weak _ pre [unfolded s1]])
    show "\<forall>i \<in> set [0..<i]. i < ?n" using i by simp
    show "degree_matrix ?n (replicate ?n (replicate ?n 0))" by (rule degree_matrix_zero)
  next
    fix m a j w assume "degree_matrix ?n m" and "a < ?n" and "j < ?n" and "a \<noteq> j" and "0 < (w::real)"
    then show "degree_matrix ?n (link m a j w)" by (rule degree_matrix_link)
  qed
  from row_update_progress [OF so dr weak i mid [unfolded s1 s2] this own]
  have G2: "degree_matrix ?n L2 \<and> 0 < mat_get L2 i i" .
  have "degree_matrix ?n L \<and> 0 < mat_get L i i"
  proof (rule rows_invariant [where P = "\<lambda>m. degree_matrix ?n m \<and> 0 < mat_get m i i",
        OF so dr weak _ post [unfolded s2] G2])
    show "\<forall>i \<in> set [Suc i..<?n]. i < ?n" by simp
  next
    fix m a j w
    assume "degree_matrix ?n m \<and> 0 < mat_get m i i" and "a < ?n" and "j < ?n" and "a \<noteq> j"
      and "0 < (w::real)"
    with link_facts [of ?n m a j w] i
    show "degree_matrix ?n (link m a j w) \<and> 0 < mat_get (link m a j w) i i"
      by (auto intro: less_le_trans)
  qed
  then show ?thesis by simp
qed

section \<open>Termination of the optimizer\<close>

lemma add_budget_fold_count:
  assumes "efold (add_budget beta) uids epsl = Inr epsl'"
  shows "dd_get 0 epsl' k = dd_get 0 epsl k + real (count_list uids k) * beta"
  using assms
proof (induction uids arbitrary: epsl)
  case Nil
  then show ?case by simp
next
  case (Cons x uids)
  from Cons.prems obtain e1 where e1: "add_budget beta x epsl = Inr e1"
    and rest: "efold (add_budget beta) uids e1 = Inr epsl'"
    by (auto simp: ebind_eq_Inr)
  from add_budget_Inr [OF e1] obtain v where v: "map_of epsl x = Some v"
    and m: "map_of e1 = (map_of epsl)(x \<mapsto> v + beta)" by blast
  have "dd_get 0 e1 k = dd_get 0 epsl k + (if x = k then beta else 0)"
    using v m by (auto simp: dd_get_def)
  with Cons.IH [OF rest] show ?case by (simp add: algebra_simps)
qed

lemma run_at_same_matrix:
  assumes so: "set_order so" and dr: "distinct (map fst riskest)"
    and r1: "run_at so itds riskest L epsl cidp"
    and r2: "compute_CIDP so itds riskest epsl' (1 / 4) = Inr cidp'"
  shows "run_at so itds riskest L epsl' cidp'"
proof -
  from r1 obtain R R' where run: "solver_run so itds riskest epsl (1 / 4) L R R' cidp"
    by (auto simp: run_at_def)
  from r2 obtain L2 R2 R2' where run': "solver_run so itds riskest epsl' (1 / 4) L2 R2 R2' cidp'"
    by (auto simp: compute_CIDP_run)
  from run obtain weak R0 where
    weak: "find_weak_relations so riskest itds (find_strong_relations so riskest) = Inr weak"
    and R0: "initial_R itds epsl = Inr R0"
    and f: "fill_relations (find_strong_relations so riskest) weak itds epsl (1 / 4)
          (replicate (length itds) (replicate (length itds) 0), R0) = Inr (L, R)"
    by (auto simp: solver_run_def)
  from run' weak obtain R0' where
    R0': "initial_R itds epsl' = Inr R0'"
    and f': "fill_relations (find_strong_relations so riskest) weak itds epsl' (1 / 4)
          (replicate (length itds) (replicate (length itds) 0), R0') = Inr (L2, R2)"
    by (auto simp: solver_run_def)
  from runs_related [OF so dr _ weak R0 R0' f f'] have "L2 = L"
    by (simp add: runs_rel_def)
  with run' show ?thesis by (auto simp: run_at_def)
qed

lemma run_at_step:
  assumes so: "set_order so" and dr: "distinct (map fst riskest)" and dk: "distinct (map fst itds)"
    and i: "i < length itds" and nz: "mat_get L i i \<noteq> 0"
    and r: "run_at so itds riskest L epsl cidp" and r': "run_at so itds riskest L epsl' cidp'"
    and c: "dict_get cidp (sorted_uids itds ! i) = Inr c"
    and c': "dict_get cidp' (sorted_uids itds ! i) = Inr c'"
    and le: "\<forall>k. dd_get 0 epsl k \<le> dd_get 0 epsl' k"
  shows "dd_get 0 epsl' (sorted_uids itds ! i) - dd_get 0 epsl (sorted_uids itds ! i) \<le> c' - c"
proof -
  from r obtain R R' where run: "solver_run so itds riskest epsl (1 / 4) L R R' cidp"
    by (auto simp: run_at_def)
  from r' obtain R2 R2' where run': "solver_run so itds riskest epsl' (1 / 4) L R2 R2' cidp'"
    by (auto simp: run_at_def)
  from runs_compare(2) [OF so dr _ dk run run' i c c' budget_le_dd_getI [OF le] nz]
  show ?thesis by simp
qed

lemma run_at_zero:
  assumes so: "set_order so" and dr: "distinct (map fst riskest)" and dk: "distinct (map fst itds)"
    and i: "i < length itds" and z: "mat_get L i i = 0"
    and r: "run_at so itds riskest L epsl cidp"
  shows "dict_get cidp (sorted_uids itds ! i) = Inr 0"
proof -
  from r obtain R R' where run: "solver_run so itds riskest epsl (1 / 4) L R R' cidp"
    by (auto simp: run_at_def)
  from run_value_isolated [OF so dr _ dk run i z] show ?thesis by simp
qed

lemma ofold_terminates:
  assumes "P s"
    and "\<And>x s. x \<in> set xs \<Longrightarrow> P s \<Longrightarrow> \<exists>r. f x s = Some r \<and> (\<forall>s'. r = Inr s' \<longrightarrow> P s')"
  shows "\<exists>r. ofold f xs s = Some r"
  using assms
proof (induction xs arbitrary: s)
  case Nil
  then show ?case by simp
next
  case (Cons x xs)
  from Cons.prems(2) [OF _ Cons.prems(1)] obtain r where r: "f x s = Some r"
    and P: "\<And>s'. r = Inr s' \<Longrightarrow> P s'" by auto
  show ?case
  proof (cases r)
    case (Inl e)
    with r show ?thesis by simp
  next
    case (Inr s')
    from P [OF Inr] have "P s'" .
    from Cons.IH [OF this] Cons.prems(2) obtain r' where "ofold f xs s' = Some r'" by auto
    with r Inr show ?thesis by simp
  qed
qed

lemma increase_step:
  assumes so: "set_order so" and dr: "distinct (map fst riskest)" and dk: "distinct (map fst itds)"
    and beta: "0 < beta"
    and aff: "dict_get affected u = Inr uids" and mem: "u \<in> set uids"
    and i: "i < length itds" and ui: "sorted_uids itds ! i = u" and nz: "mat_get L i i \<noteq> 0"
    and r: "run_at so itds riskest L epsl cidp" and c: "dict_get cidp u = Inr c"
  shows "(\<exists>e. increase_loop so itds riskest affected beta u epsl = Some (Inl e)) \<or>
     (\<exists>epsl1 cidp1 c1. run_at so itds riskest L epsl1 cidp1 \<and> dict_get cidp1 u = Inr c1 \<and>
        c + beta \<le> c1 \<and> (\<forall>v. v \<notin> set uids \<longrightarrow> dd_get 0 epsl1 v = dd_get 0 epsl v) \<and>
        increase_loop so itds riskest affected beta u epsl =
          (if c1 > 1 then Some (Inr (epsl1, cidp1))
           else increase_loop so itds riskest affected beta u epsl1))"
proof (cases "efold (add_budget beta) uids epsl")
  case (Inl e)
  with aff show ?thesis by (subst increase_loop.simps) simp
next
  case (Inr epsl1)
  note e1 = this
  show ?thesis
  proof (cases "compute_CIDP so itds riskest epsl1 (1 / 4)")
    case (Inl e)
    with aff e1 show ?thesis by (subst increase_loop.simps) simp
  next
    case (Inr cidp1)
    note c1 = this
    show ?thesis
    proof (cases "dict_get cidp1 u")
      case (Inl e)
      with aff e1 c1 show ?thesis by (subst increase_loop.simps) simp
    next
      case (Inr c1')
      from run_at_same_matrix [OF so dr r c1] have r1: "run_at so itds riskest L epsl1 cidp1" .
      note cnt = add_budget_fold_count [OF e1]
      have le: "\<forall>k. dd_get 0 epsl k \<le> dd_get 0 epsl1 k"
        using beta by (simp add: cnt)
      from mem have "count_list uids u \<noteq> 0" by (simp add: count_list_0_iff)
      then have "1 \<le> count_list uids u" by simp
      then have "beta \<le> real (count_list uids u) * beta"
        using beta by simp
      then have "beta \<le> dd_get 0 epsl1 u - dd_get 0 epsl u" by (simp add: cnt)
      with run_at_step [OF so dr dk i nz r r1 c [folded ui] Inr [folded ui] le] ui
      have "c + beta \<le> c1'" by simp
      moreover have "\<forall>v. v \<notin> set uids \<longrightarrow> dd_get 0 epsl1 v = dd_get 0 epsl v"
        by (simp add: cnt count_list_0_iff)
      moreover have "increase_loop so itds riskest affected beta u epsl =
          (if c1' > 1 then Some (Inr (epsl1, cidp1))
           else increase_loop so itds riskest affected beta u epsl1)"
        using aff e1 c1 Inr by (subst increase_loop.simps) simp
      ultimately show ?thesis using r1 Inr by blast
    qed
  qed
qed

lemma increase_loop_terminates:
  assumes so: "set_order so" and dr: "distinct (map fst riskest)" and dk: "distinct (map fst itds)"
    and beta: "0 < beta"
    and aff: "dict_get affected u = Inr uids" and mem: "u \<in> set uids"
    and i: "i < length itds" and ui: "sorted_uids itds ! i = u" and nz: "mat_get L i i \<noteq> 0"
  shows "run_at so itds riskest L epsl cidp \<Longrightarrow> dict_get cidp u = Inr c \<Longrightarrow>
    1 - c < real k * beta \<Longrightarrow>
    \<exists>r. increase_loop so itds riskest affected beta u epsl = Some r \<and>
      (\<forall>epsl' cidp'. r = Inr (epsl', cidp') \<longrightarrow>
         run_at so itds riskest L epsl' cidp' \<and>
         (\<forall>v. v \<notin> set uids \<longrightarrow> dd_get 0 epsl' v = dd_get 0 epsl v))"
proof (induction k arbitrary: epsl cidp c)
  case 0
  from increase_step [OF so dr dk beta aff mem i ui nz "0.prems"(1,2)]
  show ?case
  proof (elim disjE exE conjE)
    fix e assume "increase_loop so itds riskest affected beta u epsl = Some (Inl e)"
    then show ?thesis by simp
  next
    fix epsl1 cidp1 c1
    assume r1: "run_at so itds riskest L epsl1 cidp1" and "c + beta \<le> c1"
      and same: "\<forall>v. v \<notin> set uids \<longrightarrow> dd_get 0 epsl1 v = dd_get 0 epsl v"
      and loop: "increase_loop so itds riskest affected beta u epsl =
          (if c1 > 1 then Some (Inr (epsl1, cidp1))
           else increase_loop so itds riskest affected beta u epsl1)"
    with "0.prems"(3) beta have "c1 > 1" by simp
    with loop r1 same show ?thesis by simp
  qed
next
  case (Suc k)
  from increase_step [OF so dr dk beta aff mem i ui nz Suc.prems(1,2)]
  show ?case
  proof (elim disjE exE conjE)
    fix e assume "increase_loop so itds riskest affected beta u epsl = Some (Inl e)"
    then show ?thesis by simp
  next
    fix epsl1 cidp1 c1
    assume r1: "run_at so itds riskest L epsl1 cidp1" and c1: "dict_get cidp1 u = Inr c1"
      and grow: "c + beta \<le> c1"
      and same: "\<forall>v. v \<notin> set uids \<longrightarrow> dd_get 0 epsl1 v = dd_get 0 epsl v"
      and loop: "increase_loop so itds riskest affected beta u epsl =
          (if c1 > 1 then Some (Inr (epsl1, cidp1))
           else increase_loop so itds riskest affected beta u epsl1)"
    show ?thesis
    proof (cases "c1 > 1")
      case True
      with loop r1 same show ?thesis by simp
    next
      case False
      from Suc.prems(3) grow have "1 - c1 < real k * beta"
        by (simp add: algebra_simps)
      from Suc.IH [OF r1 c1 this] obtain r where
        r: "increase_loop so itds riskest affected beta u epsl1 = Some r"
        and post: "\<And>epsl' cidp'. r = Inr (epsl', cidp') \<Longrightarrow>
         run_at so itds riskest L epsl' cidp' \<and>
         (\<forall>v. v \<notin> set uids \<longrightarrow> dd_get 0 epsl' v = dd_get 0 epsl1 v)"
        by blast
      from loop False r have "increase_loop so itds riskest affected beta u epsl = Some r"
        by simp
      with post same show ?thesis by auto
    qed
  qed
qed

lemma decrease_step:
  assumes so: "set_order so" and dr: "distinct (map fst riskest)" and dk: "distinct (map fst itds)"
    and beta: "0 < beta"
    and aff: "dict_get affected u = Inr uids" and mem: "u \<in> set uids"
    and i: "i < length itds" and ui: "sorted_uids itds ! i = u" and nz: "mat_get L i i \<noteq> 0"
    and r: "run_at so itds riskest L epsl cidp" and c: "dict_get cidp u = Inr c"
  shows "(\<exists>e. decrease_loop so itds riskest affected beta u epsl = Some (Inl e)) \<or>
     (\<exists>epsl1 cidp1 c1. run_at so itds riskest L epsl1 cidp1 \<and> dict_get cidp1 u = Inr c1 \<and>
        c1 \<le> c - beta \<and> (\<forall>v. v \<notin> set uids \<longrightarrow> dd_get 0 epsl1 v = dd_get 0 epsl v) \<and>
        decrease_loop so itds riskest affected beta u epsl =
          (if c1 \<le> 1 then Some (Inr (epsl1, cidp1))
           else decrease_loop so itds riskest affected beta u epsl1))"
proof (cases "efold (sub_budget beta) uids epsl")
  case (Inl e)
  with aff show ?thesis by (subst decrease_loop.simps) simp
next
  case (Inr epsl1)
  note e1 = this
  show ?thesis
  proof (cases "compute_CIDP so itds riskest epsl1 (1 / 4)")
    case (Inl e)
    with aff e1 show ?thesis by (subst decrease_loop.simps) simp
  next
    case (Inr cidp1)
    note c1 = this
    show ?thesis
    proof (cases "dict_get cidp1 u")
      case (Inl e)
      with aff e1 c1 show ?thesis by (subst decrease_loop.simps) simp
    next
      case (Inr c1')
      from run_at_same_matrix [OF so dr r c1] have r1: "run_at so itds riskest L epsl1 cidp1" .
      note cnt = add_budget_fold_count [OF e1 [unfolded sub_budget_add]]
      have le: "\<forall>k. dd_get 0 epsl1 k \<le> dd_get 0 epsl k"
        using beta by (simp add: cnt)
      from mem have "count_list uids u \<noteq> 0" by (simp add: count_list_0_iff)
      then have "1 \<le> count_list uids u" by simp
      then have "beta \<le> real (count_list uids u) * beta"
        using beta by simp
      then have "beta \<le> dd_get 0 epsl u - dd_get 0 epsl1 u" by (simp add: cnt)
      with run_at_step [OF so dr dk i nz r1 r Inr [folded ui] c [folded ui] le] ui
      have "c1' \<le> c - beta" by simp
      moreover have "\<forall>v. v \<notin> set uids \<longrightarrow> dd_get 0 epsl1 v = dd_get 0 epsl v"
        by (simp add: cnt count_list_0_iff)
      moreover have "decrease_loop so itds riskest affected beta u epsl =
          (if c1' \<le> 1 then Some (Inr (epsl1, cidp1))
           else decrease_loop so itds riskest affected beta u epsl1)"
        using aff e1 c1 Inr by (subst decrease_loop.simps) simp
      ultimately show ?thesis using r1 Inr by blast
    qed
  qed
qed

lemma decrease_loop_terminates:
  assumes so: "set_order so" and dr: "distinct (map fst riskest)" and dk: "distinct (map fst itds)"
    and beta: "0 < beta"
    and aff: "dict_get affected u = Inr uids" and mem: "u \<in> set uids"
    and i: "i < length itds" and ui: "sorted_uids itds ! i = u" and nz: "mat_get L i i \<noteq> 0"
  shows "run_at so itds riskest L epsl cidp \<Longrightarrow> dict_get cidp u = Inr c \<Longrightarrow>
    c - 1 \<le> real k * beta \<Longrightarrow>
    \<exists>r. decrease_loop so itds riskest affected beta u epsl = Some r \<and>
      (\<forall>epsl' cidp'. r = Inr (epsl', cidp') \<longrightarrow>
         run_at so itds riskest L epsl' cidp' \<and>
         (\<forall>v. v \<notin> set uids \<longrightarrow> dd_get 0 epsl' v = dd_get 0 epsl v))"
proof (induction k arbitrary: epsl cidp c)
  case 0
  from decrease_step [OF so dr dk beta aff mem i ui nz "0.prems"(1,2)]
  show ?case
  proof (elim disjE exE conjE)
    fix e assume "decrease_loop so itds riskest affected beta u epsl = Some (Inl e)"
    then show ?thesis by simp
  next
    fix epsl1 cidp1 c1
    assume r1: "run_at so itds riskest L epsl1 cidp1" and "c1 \<le> c - beta"
      and same: "\<forall>v. v \<notin> set uids \<longrightarrow> dd_get 0 epsl1 v = dd_get 0 epsl v"
      and loop: "decrease_loop so itds riskest affected beta u epsl =
          (if c1 \<le> 1 then Some (Inr (epsl1, cidp1))
           else decrease_loop so itds riskest affected beta u epsl1)"
    with "0.prems"(3) beta have "c1 \<le> 1" by simp
    with loop r1 same show ?thesis by simp
  qed
next
  case (Suc k)
  from decrease_step [OF so dr dk beta aff mem i ui nz Suc.prems(1,2)]
  show ?case
  proof (elim disjE exE conjE)
    fix e assume "decrease_loop so itds riskest affected beta u epsl = Some (Inl e)"
    then show ?thesis by simp
  next
    fix epsl1 cidp1 c1
    assume r1: "run_at so itds riskest L epsl1 cidp1" and c1: "dict_get cidp1 u = Inr c1"
      and shrink: "c1 \<le> c - beta"
      and same: "\<forall>v. v \<notin> set uids \<longrightarrow> dd_get 0 epsl1 v = dd_get 0 epsl v"
      and loop: "decrease_loop so itds riskest affected beta u epsl =
          (if c1 \<le> 1 then Some (Inr (epsl1, cidp1))
           else decrease_loop so itds riskest affected beta u epsl1)"
    show ?thesis
    proof (cases "c1 \<le> 1")
      case True
      with loop r1 same show ?thesis by simp
    next
      case False
      from Suc.prems(3) shrink have "c1 - 1 \<le> real k * beta"
        by (simp add: algebra_simps)
      from Suc.IH [OF r1 c1 this] obtain r where
        r: "decrease_loop so itds riskest affected beta u epsl1 = Some r"
        and post: "\<And>epsl' cidp'. r = Inr (epsl', cidp') \<Longrightarrow>
         run_at so itds riskest L epsl' cidp' \<and>
         (\<forall>v. v \<notin> set uids \<longrightarrow> dd_get 0 epsl' v = dd_get 0 epsl1 v)"
        by blast
      from loop False r have "decrease_loop so itds riskest affected beta u epsl = Some r"
        by simp
      with post same show ?thesis by auto
    qed
  qed
qed

lemma affected_member_degree:
  assumes so: "set_order so" and dr: "distinct (map fst riskest)" and dk: "distinct (map fst itds)"
    and aff: "affected_by so riskest itds = Inr affected"
    and r: "run_at so itds riskest L epsl cidp"
    and u: "u \<in> set (dict_keys itds)"
    and i': "i' < length itds" and v: "sorted_uids itds ! i' \<in> set (dd_get [] affected u)"
    and ne: "sorted_uids itds ! i' \<noteq> u"
  shows "0 < mat_get L i' i'"
proof -
  from r obtain R R' weak R0 where
    weak: "find_weak_relations so riskest itds (find_strong_relations so riskest) = Inr weak"
    and fill: "fill_relations (find_strong_relations so riskest) weak itds epsl (1 / 4)
          (replicate (length itds) (replicate (length itds) 0), R0) = Inr (L, R)"
    by (auto simp: run_at_def solver_run_def)
  from affected_by_Inr [OF aff weak] u
  have "set (dd_get [] affected u) =
         {u} \<union> {v. u \<in> set (dd_get [] (find_strong_relations so riskest) v)}
             \<union> {v. u \<in> set (dd_get [] weak v)}"
    by simp
  with v ne have "u \<in> set (dd_get [] (find_strong_relations so riskest) (sorted_uids itds ! i')) \<or>
      u \<in> set (dd_get [] weak (sorted_uids itds ! i'))"
    by auto
  then have "dd_get [] (find_strong_relations so riskest) (sorted_uids itds ! i') \<noteq> [] \<or>
      dd_get [] weak (sorted_uids itds ! i') \<noteq> []"
    by auto
  from own_relation_degree_pos [OF so dr weak fill i' this] show ?thesis .
qed

lemma optimize_user_terminates:
  assumes so: "set_order so" and dr: "distinct (map fst riskest)" and dk: "distinct (map fst itds)"
    and beta: "0 < beta"
    and aff: "affected_by so riskest itds = Inr affected"
    and u: "u \<in> set (dict_keys itds)"
    and inv: "budgets_ok so itds riskest L (epsl, cidp)"
  shows "\<exists>r. optimize_user so itds riskest affected beta u (epsl, cidp) = Some r \<and>
     (\<forall>s'. r = Inr s' \<longrightarrow> budgets_ok so itds riskest L s')"
proof -
  let ?n = "length itds"
  from inv have r: "run_at so itds riskest L epsl cidp"
    and nonneg: "\<And>i. i < ?n \<Longrightarrow> mat_get L i i = 0 \<Longrightarrow> 0 \<le> dd_get 0 epsl (sorted_uids itds ! i)"
    by (simp_all add: budgets_ok_def)
  from u obtain i where i: "i < ?n" and ui: "sorted_uids itds ! i = u"
    by (metis in_set_conv_nth set_sorted_uids length_sorted_uids)
  from r obtain weak where
    weak: "find_weak_relations so riskest itds (find_strong_relations so riskest) = Inr weak"
    by (auto simp: run_at_def solver_run_def)
  from affected_by_Inr [OF aff weak] u
  have ak: "u \<in> fst ` set affected" and mem: "u \<in> set (dd_get [] affected u)"
    by simp_all
  let ?uids = "dd_get [] affected u"
  from ak have ga: "dict_get affected u = Inr ?uids" by (rule dict_get_dd_get)
  have dsu: "distinct (sorted_uids itds)"
    using dk by (simp add: sorted_uids_def dict_keys_def)
  have keep: "budgets_ok so itds riskest L (epsl', cidp')"
    if nz: "mat_get L i i \<noteq> 0" and r': "run_at so itds riskest L epsl' cidp'"
      and same: "\<forall>v. v \<notin> set ?uids \<longrightarrow> dd_get 0 epsl' v = dd_get 0 epsl v"
    for epsl' cidp'
  proof -
    have "0 \<le> dd_get 0 epsl' (sorted_uids itds ! i')"
      if i': "i' < ?n" and z: "mat_get L i' i' = 0" for i'
    proof -
      have "sorted_uids itds ! i' \<notin> set ?uids"
      proof
        assume v: "sorted_uids itds ! i' \<in> set ?uids"
        show False
        proof (cases "sorted_uids itds ! i' = u")
          case True
          with ui have "sorted_uids itds ! i' = sorted_uids itds ! i" by simp
          with nth_eq_iff_index_eq [OF dsu, of i' i] i i' have "i' = i"
            by (simp add: length_sorted_uids)
          with z nz show False by simp
        next
          case False
          from affected_member_degree [OF so dr dk aff r u i' v False] z show False by simp
        qed
      qed
      with same nonneg [OF i' z] show ?thesis by simp
    qed
    with r' show ?thesis by (simp add: budgets_ok_def)
  qed
  show ?thesis
  proof (cases "dict_has riskest u")
    case False
    with inv show ?thesis by (simp add: optimize_user_def)
  next
    case True
    note has = this
    show ?thesis
    proof (cases "dict_get epsl u")
      case (Inl e)
      with has show ?thesis by (simp add: optimize_user_def)
    next
      case (Inr e_u)
      note eu = this
      then have eu': "dd_get 0 epsl u = e_u" by (rule dd_get_dict_get)
      show ?thesis
      proof (cases "dict_get cidp u")
        case (Inl e)
        with has eu show ?thesis by (simp add: optimize_user_def)
      next
        case (Inr c)
        note c = this
        show ?thesis
        proof (cases "mat_get L i i = 0")
          case True
          from run_at_zero [OF so dr dk i True r] c ui have "c = 0" by simp
          moreover from nonneg [OF i True] eu' ui have "0 \<le> e_u" by simp
          ultimately show ?thesis
            using has eu c inv by (simp add: optimize_user_def)
        next
          case False
          note nz = this
          consider (up) "e_u < c \<and> c \<le> 1" | (down) "\<not> (e_u < c \<and> c \<le> 1)" "c > 1"
            | (stay) "\<not> (e_u < c \<and> c \<le> 1)" "\<not> c > 1"
            by blast
          then show ?thesis
          proof cases
            case up
            obtain k where "(1 - c) / beta < real k"
              using reals_Archimedean2 by blast
            with beta have "1 - c < real k * beta"
              by (simp add: pos_divide_less_eq)
            from increase_loop_terminates [OF so dr dk beta ga mem i ui nz r c this]
            obtain res where res: "increase_loop so itds riskest affected beta u epsl = Some res"
              and post: "\<And>epsl' cidp'. res = Inr (epsl', cidp') \<Longrightarrow>
                run_at so itds riskest L epsl' cidp' \<and>
                (\<forall>v. v \<notin> set ?uids \<longrightarrow> dd_get 0 epsl' v = dd_get 0 epsl v)"
              by blast
            have "budgets_ok so itds riskest L s'" if "res = Inr s'" for s'
            proof -
              obtain epsl' cidp' where s': "s' = (epsl', cidp')" by (cases s')
              from post [OF that [unfolded s']] keep [OF nz] show ?thesis by (simp add: s')
            qed
            moreover have "optimize_user so itds riskest affected beta u (epsl, cidp) = Some res"
              using has eu c up res by (simp add: optimize_user_def)
            ultimately show ?thesis by blast
          next
            case down
            obtain k where "(c - 1) / beta < real k"
              using reals_Archimedean2 by blast
            with beta have "c - 1 \<le> real k * beta"
              by (simp add: pos_divide_less_eq)
            from decrease_loop_terminates [OF so dr dk beta ga mem i ui nz r c this]
            obtain res where res: "decrease_loop so itds riskest affected beta u epsl = Some res"
              and post: "\<And>epsl' cidp'. res = Inr (epsl', cidp') \<Longrightarrow>
                run_at so itds riskest L epsl' cidp' \<and>
                (\<forall>v. v \<notin> set ?uids \<longrightarrow> dd_get 0 epsl' v = dd_get 0 epsl v)"
              by blast
            have "budgets_ok so itds riskest L s'" if "res = Inr s'" for s'
            proof -
              obtain epsl' cidp' where s': "s' = (epsl', cidp')" by (cases s')
              from post [OF that [unfolded s']] keep [OF nz] show ?thesis by (simp add: s')
            qed
            moreover have "optimize_user so itds riskest affected beta u (epsl, cidp) = Some res"
              using has eu c down res by (simp add: optimize_user_def)
            ultimately show ?thesis by blast
          next
            case stay
            with has eu c inv show ?thesis by (simp add: optimize_user_def)
          qed
        qed
      qed
    qed
  qed
qed

text \<open>
  C3, as the code has it. With a step \<open>beta > 0\<close> and an initial budget that is not
  negative, and with budgets as exact reals, the optimizer returns: every run of one of its
  two \<^verbatim>\<open>while True\<close> loops reaches its \<^verbatim>\<open>break\<close> after finitely many steps (or a lookup
  raises). Each step moves the disclosure value of the user being optimized by at least
  \<open>beta\<close> towards the bound 1, because that user has a positive diagonal entry in \<open>mat_L\<close>
  whenever a loop is entered. The source has no iteration cap and no error for a search
  that does not converge.
\<close>

theorem compute_IDFA_terminates:
  assumes so: "set_order so" and dr: "distinct (map fst riskest)" and dk: "distinct (map fst itds)"
    and beta: "0 < beta" and init: "0 \<le> epsl_init"
  shows "\<exists>r. compute_IDFA so itds riskest epsl_init beta = Some r"
proof -
  let ?epsl = "dict_of (map (\<lambda>uid. (uid, epsl_init)) (dict_keys itds))"
  show ?thesis
  proof (cases "compute_CIDP so itds riskest ?epsl (1 / 4)")
    case (Inl e)
    then show ?thesis by (simp add: compute_IDFA_def)
  next
    case (Inr cidp)
    note cidp = this
    show ?thesis
    proof (cases "affected_by so riskest itds")
      case (Inl e)
      with cidp show ?thesis by (simp add: compute_IDFA_def)
    next
      case (Inr affected)
      from cidp obtain L where r: "run_at so itds riskest L ?epsl cidp"
        by (auto simp: compute_CIDP_run run_at_def)
      have "0 \<le> dd_get 0 ?epsl k" for k
        using init by (simp add: dd_get_def dict_of_def map_of_dict_of_keys)
      with r have "budgets_ok so itds riskest L (?epsl, cidp)"
        by (simp add: budgets_ok_def)
      from ofold_terminates [where P = "budgets_ok so itds riskest L"
          and f = "optimize_user so itds riskest affected beta" and xs = "dict_keys itds", OF this]
        optimize_user_terminates [OF so dr dk beta Inr]
      obtain res where
        "ofold (optimize_user so itds riskest affected beta) (dict_keys itds) (?epsl, cidp) = Some res"
        by (metis surj_pair)
      with cidp Inr show ?thesis
        by (cases res) (auto simp: compute_IDFA_def split: prod.splits)
    qed
  qed
qed

theorem compute_IDFA_terminates_witness:
  "set_order sorted_list_of_set \<and> distinct (map fst example_riskest) \<and>
   distinct (map fst example_itds) \<and> (0::real) < 1 / 20 \<and> (0::real) \<le> 1 / 10 \<and>
   (\<exists>r. compute_IDFA sorted_list_of_set example_itds example_riskest (1 / 10) (1 / 20) = Some r) \<and>
   compute_IDFA sorted_list_of_set example_itds example_riskest (1 / 10) (1 / 20)
     = Some (Inr [(1, 1 / 2), (2, 1 / 2)])"
proof -
  have h1: "set_order sorted_list_of_set" by (simp add: set_order_def)
  have h2: "distinct (map fst example_riskest)" by (simp add: example_riskest_def)
  have h3: "distinct (map fst example_itds)" by (simp add: example_itds_def)
  have h4: "(0::real) < 1 / 20" and h5: "(0::real) \<le> 1 / 10" by simp_all
  have e: "compute_IDFA sorted_list_of_set example_itds example_riskest (1 / 10) (1 / 20)
     = Some (Inr [(1, 1 / 2), (2, 1 / 2)])" by code_simp
  from compute_IDFA_terminates [OF h1 h2 h3 h4 h5]
  have "\<exists>r. compute_IDFA sorted_list_of_set example_itds example_riskest (1 / 10) (1 / 20) = Some r" .
  with h1 h2 h3 h4 h5 e show ?thesis by blast
qed

subsection \<open>A run that does not return\<close>

lemma solo_affected:
  "affected_by sorted_list_of_set example_solo_riskest example_solo = Inr [(1, [1])]"
  by code_simp

lemma solo_budgets: "dict_of [(1::int, e :: real)] = [(1, e)]"
  by (simp add: dict_of_def dict_set_def)

lemma solo_cidp:
  "compute_CIDP sorted_list_of_set example_solo example_solo_riskest [(1, e)] (1 / 4) = Inr [(1, 0)]"
  by code_simp simp

lemma solo_step:
  "ebind (dict_get [(1::int, [1::int])] 1) (\<lambda>uids. efold (add_budget beta) uids [(1, e)])
     = Inr [(1, e + beta)]"
  by (simp add: dict_get_def add_budget_def dict_set_def)

lemma solo_increase_diverges:
  "increase_loop sorted_list_of_set example_solo example_solo_riskest [(1, [1])] beta 1 [(1, e)]
     = None"
proof (rule ccontr)
  let ?P = "\<lambda>(so :: int set \<Rightarrow> int list) (itds :: (int, ITD) dict)
      (riskest :: (int, Trajectory) dict) (affected :: (int, int list) dict) (b :: real)
      (uid :: int) (epsl :: (int, real) dict)
      (y :: ((int, real) dict \<times> (int, real) dict) result).
      \<not> (so = sorted_list_of_set \<and> itds = example_solo \<and> riskest = example_solo_riskest \<and>
         affected = [(1, [1])] \<and> b = beta \<and> uid = 1 \<and> (\<exists>e. epsl = [(1, e)]))"
  assume "increase_loop sorted_list_of_set example_solo example_solo_riskest [(1, [1])] beta 1
      [(1, e)] \<noteq> None"
  then obtain y where y: "increase_loop sorted_list_of_set example_solo example_solo_riskest
      [(1, [1])] beta 1 [(1, e)] = Some y" by auto
  have "?P sorted_list_of_set example_solo example_solo_riskest [(1, [1])] beta 1 [(1, e)] y"
  proof (rule increase_loop.raw_induct [where P = ?P, OF _ y])
    fix f so itds riskest affected b uid epsl r
    assume IH: "\<And>so itds riskest affected b uid epsl r.
        f so itds riskest affected b uid epsl = Some r \<Longrightarrow> ?P so itds riskest affected b uid epsl r"
      and body: "(case ebind (dict_get affected uid) (\<lambda>uids. efold (add_budget b) uids epsl) of
          Inl e \<Rightarrow> Some (Inl e)
        | Inr epsl \<Rightarrow>
           (case compute_CIDP so itds riskest epsl (1 / 4) of
              Inl e \<Rightarrow> Some (Inl e)
            | Inr cidp \<Rightarrow>
               (case dict_get cidp uid of
                  Inl e \<Rightarrow> Some (Inl e)
                | Inr c \<Rightarrow>
                   if c > 1 then Some (Inr (epsl, cidp))
                   else f so itds riskest affected b uid epsl))) = Some r"
    show "?P so itds riskest affected b uid epsl r"
    proof
      assume a: "so = sorted_list_of_set \<and> itds = example_solo \<and>
         riskest = example_solo_riskest \<and> affected = [(1, [1])] \<and> b = beta \<and> uid = 1 \<and>
         (\<exists>e. epsl = [(1, e)])"
      then obtain e' where e': "epsl = [(1, e')]" by blast
      have c: "dict_get [(1::int, 0::real)] 1 = Inr 0" by (simp add: dict_get_def)
      from body a e' have "f sorted_list_of_set example_solo example_solo_riskest [(1, [1])]
          beta 1 [(1, e' + beta)] = Some r"
        by (simp add: solo_step solo_cidp c)
      from IH [OF this] show False by simp
    qed
  qed
  then show False by simp
qed

text \<open>
  C3 as stated fails: with the step \<open>1/20\<close> and the initial budget \<open>-1/10\<close>, in a
  population of one user, the optimizer never returns. The disclosure value of the only user
  is 0 whatever the budget is, so the test \<^verbatim>\<open>epsl[uid] < cidp[uid] <= 1\<close> holds, the first
  \<^verbatim>\<open>while True\<close> loop is entered and its \<^verbatim>\<open>break\<close> is never reached.
\<close>

theorem compute_IDFA_negative_budget_diverges:
  "(0::real) < 1 / 20 \<and>
   compute_IDFA sorted_list_of_set example_solo example_solo_riskest (- (1 / 10)) (1 / 20) = None"
proof -
  have c: "dict_get [(1::int, 0::real)] 1 = Inr 0" by (simp add: dict_get_def)
  have e: "dict_get [(1::int, - (1 / 10) :: real)] 1 = Inr (- (1 / 10))"
    by (simp add: dict_get_def)
  have r: "dict_has example_solo_riskest 1" by code_simp
  have k: "dict_keys example_solo = [1]" by (simp add: example_solo_def dict_keys_def)
  have "optimize_user sorted_list_of_set example_solo example_solo_riskest [(1, [1])] (1 / 20) 1
      ([(1, - (1 / 10))], [(1, 0)]) = None"
    by (simp add: optimize_user_def r c e solo_increase_diverges)
  then show ?thesis
    by (simp add: compute_IDFA_def k solo_budgets solo_cidp solo_affected)
qed

section \<open>The sanitizer\<close>

lemma risky_of_empty:
  assumes "\<forall>t \<in> set (trajectories itd).
        case risk (count_value itd t) t itds of Inr v \<Rightarrow> v < p | Inl e \<Rightarrow> False"
  shows "risky_of itds p itd = Inr []"
proof -
  let ?rv = "\<lambda>t. case risk (count_value itd t) t itds of Inr v \<Rightarrow> v | Inl e \<Rightarrow> 0"
  let ?tv = "map (\<lambda>t. (t, ?rv t)) (trajectories itd)"
  have "emap (\<lambda>t. ebind (ITD_count itd t) (\<lambda>c. ebind (risk c t itds) (\<lambda>v. Inr (t, v))))
          (trajectories itd) = Inr ?tv"
  proof (rule emap_Inr)
    fix t assume "t \<in> set (trajectories itd)"
    with assms have "case risk (count_value itd t) t itds of Inr v \<Rightarrow> v < p | Inl e \<Rightarrow> False"
      by simp
    then obtain v where "risk (count_value itd t) t itds = Inr v"
      by (cases "risk (count_value itd t) t itds") simp_all
    then show "ebind (ITD_count itd t) (\<lambda>c. ebind (risk c t itds) (\<lambda>v. Inr (t, v)))
        = Inr (t, ?rv t)"
      by (simp add: ITD_count_value)
  qed
  moreover have "filter (\<lambda>(t, v). v \<ge> p) (sort_key snd ?tv) = []"
  proof -
    have "\<not> (case x of (t, v) \<Rightarrow> v \<ge> p)" if "x \<in> set (sort_key snd ?tv)" for x
    proof -
      from that obtain t where t: "t \<in> set (trajectories itd)" and x: "x = (t, ?rv t)"
        by auto
      from assms t have "case risk (count_value itd t) t itds of Inr v \<Rightarrow> v < p | Inl e \<Rightarrow> False"
        by simp
      then have "?rv t < p"
        by (cases "risk (count_value itd t) t itds") simp_all
      with x show ?thesis by simp
    qed
    then show ?thesis by (simp add: filter_empty_conv)
  qed
  ultimately show ?thesis by (simp add: risky_of_def)
qed

lemma initial_risky_fold_empty:
  assumes "\<forall>x \<in> set xs. risky_of itds p (snd x) = Inr []"
  shows "\<exists>risky'.
     efold (\<lambda>(uid, itd) risky. ebind (risky_of itds p itd) (\<lambda>l. Inr (dict_set risky uid l)))
       xs risky = Inr risky' \<and>
     fst ` set risky' = fst ` set risky \<union> fst ` set xs \<and>
     (\<forall>k l. map_of risky' k = Some l \<longrightarrow> l = [] \<or> map_of risky k = Some l)"
  using assms
proof (induction xs arbitrary: risky)
  case Nil
  then show ?case by simp
next
  case (Cons x xs)
  obtain uid itd where x: "x = (uid, itd)" by (cases x)
  from Cons.prems have r: "risky_of itds p itd = Inr []"
    and rest: "\<forall>x \<in> set xs. risky_of itds p (snd x) = Inr []"
    by (simp_all add: x)
  from Cons.IH [OF rest, of "dict_set risky uid []"] obtain risky' where
    e: "efold (\<lambda>(uid, itd) risky. ebind (risky_of itds p itd) (\<lambda>l. Inr (dict_set risky uid l)))
       xs (dict_set risky uid []) = Inr risky'"
    and k: "fst ` set risky' = fst ` set (dict_set risky uid []) \<union> fst ` set xs"
    and v: "\<And>k l. map_of risky' k = Some l \<Longrightarrow>
         l = [] \<or> map_of (dict_set risky uid []) k = Some l"
    by blast
  have "efold (\<lambda>(uid, itd) risky. ebind (risky_of itds p itd) (\<lambda>l. Inr (dict_set risky uid l)))
       (x # xs) risky = Inr risky'"
    using e r by (simp add: x)
  moreover have "fst ` set risky' = fst ` set risky \<union> fst ` set (x # xs)"
    using k keys_dict_set [of risky uid "[]"] by (auto simp: x dict_keys_def)
  moreover have "l = [] \<or> map_of risky k = Some l" if "map_of risky' k = Some l" for k l
    using v [OF that] by (auto simp: map_of_dict_set split: if_splits)
  ultimately show ?case by blast
qed

lemma initial_risky_empty:
  assumes "no_risky itds p"
  shows "\<exists>risky. initial_risky itds p = Inr risky \<and>
     (\<forall>k \<in> set (dict_keys itds). map_of risky k = Some [])"
proof -
  have "\<forall>x \<in> set itds. risky_of itds p (snd x) = Inr []"
    using assms by (auto simp: no_risky_def intro!: risky_of_empty)
  from initial_risky_fold_empty [OF this, of "[]"] obtain risky where
    e: "initial_risky itds p = Inr risky"
    and k: "fst ` set risky = fst ` set itds"
    and v: "\<And>k l. map_of risky k = Some l \<Longrightarrow> l = []"
    by (auto simp: initial_risky_def)
  have "map_of risky k = Some []" if "k \<in> set (dict_keys itds)" for k
  proof -
    from that k have "k \<in> fst ` set risky" by (simp add: dict_keys_def)
    then obtain l where "map_of risky k = Some l"
      using map_of_eq_None_iff [of risky k] by auto
    with v show ?thesis by auto
  qed
  with e show ?thesis by blast
qed

lemma pop_riskest_none:
  assumes "\<forall>k \<in> set ks. map_of risky k = Some []"
  shows "efold pop_riskest ks (riskest, risky) = Inr (riskest, risky)"
  using assms by (induction ks) (simp_all add: pop_riskest_def dict_get_def)

lemma sanitize_round_break:
  assumes "\<forall>k \<in> set (dict_keys itds). map_of (st_risky st) k = Some []"
  shows "sanitize_round rng so itds p r st =
     Some (Inr (Break (st\<lparr>st_log := st_log st @ [LogIteration r]\<rparr>)))"
  using pop_riskest_none [OF assms, of "[]"]
  by (simp add: sanitize_round_def)

text \<open>
  C10. When no trajectory of any user has a risk at or above \<open>p\<close> (an empty population
  included), \<^verbatim>\<open>sanitize\<close> returns \<^verbatim>\<open>None\<close>; it has logged the first round if
  \<open>max_round\<close> admits one, and has not entered the optimizer.
\<close>

theorem sanitize_no_risky_returns_None:
  assumes "no_risky itds p"
  shows "\<exists>st. sanitize rng so itds p max_round = Some (Inr (st, PyNone)) \<and>
     LogComputingIDFA \<notin> set (st_log st) \<and>
     st_log st = (if 1 < max_round then [LogIteration 1] else [])"
proof -
  from initial_risky_empty [OF assms] obtain risky where
    e: "initial_risky itds p = Inr risky"
    and v: "\<forall>k \<in> set (dict_keys itds). map_of risky k = Some []"
    by blast
  let ?st = "\<lparr>st_risky = risky,
      st_noise_scale = dict_of (map (\<lambda>uid. (uid, [])) (dict_keys itds)),
      st_draws = 0, st_log = []\<rparr>"
  show ?thesis
  proof (cases "1 < max_round")
    case False
    then have "[1..max_round - 1] = []" by simp
    with e False show ?thesis by (simp add: sanitize_def)
  next
    case True
    then have "[1..max_round - 1] = 1 # [2..max_round - 1]"
      by (simp add: upto_rec1)
    moreover have "sanitize_round rng so itds p 1 ?st =
        Some (Inr (Break (?st\<lparr>st_log := st_log ?st @ [LogIteration 1]\<rparr>)))"
      by (rule sanitize_round_break) (simp add: v)
    ultimately show ?thesis using e True by (simp add: sanitize_def)
  qed
qed

theorem sanitize_no_risky_returns_None_witness:
  "no_risky example_itds 2 \<and>
   sanitize example_rng sorted_list_of_set example_itds 2 1000 =
     Some (Inr (\<lparr>st_risky = [(1, []), (2, [])], st_noise_scale = [(1, []), (2, [])],
                 st_draws = 0, st_log = [LogIteration 1]\<rparr>, PyNone))"
proof -
  have h: "no_risky example_itds 2" by code_simp
  have e: "sanitize example_rng sorted_list_of_set example_itds 2 1000 =
     Some (Inr (\<lparr>st_risky = [(1, []), (2, [])], st_noise_scale = [(1, []), (2, [])],
                 st_draws = 0, st_log = [LogIteration 1]\<rparr>, PyNone))" by code_simp
  from sanitize_no_risky_returns_None [OF h, of example_rng sorted_list_of_set 1000] h e
  show ?thesis by simp
qed

lemma sanitize_round_never_continues:
  "sanitize_round rng so itds p r st \<noteq> Some (Inr (Continue st'))"
  by (auto simp: sanitize_round_def Let_def split: sum.splits option.splits prod.splits)

text \<open>
  C2 at a concrete population: one user with two trajectories of risk 1, threshold
  \<open>1/2\<close>, \<open>max_round = 1000\<close>. \<^verbatim>\<open>sanitize\<close> returns the table of the first round while
  the user's queue still holds a trajectory of risk 1.
\<close>

theorem sanitize_returns_in_first_round:
  "sanitize example_rng sorted_list_of_set example_two (1 / 2) 1000 =
     Some (Inr (\<lparr>st_risky = [(1, [Trajectory [1, 2, 3]])], st_noise_scale = [(1, [10])],
                 st_draws = 2, st_log = [LogIteration 1, LogComputingIDFA]\<rparr>,
                PyValue [(1, [(Trajectory [1, 2, 3], 11), (Trajectory [4, 5, 6], - 9)])])) \<and>
   risk 1 (Trajectory [1, 2, 3]) example_two = Inr 1 \<and> (1::real) \<ge> 1 / 2"
  by code_simp

section \<open>Independence of the set iteration order\<close>

lemma efold_as_fold:
  fixes f :: "'x \<Rightarrow> 'a \<Rightarrow> error + 'a"
  shows "efold f xs s = fold (\<lambda>x r. ebind r (f x)) xs (Inr s)"
proof -
  have "ebind r (efold f xs) = fold (\<lambda>x r. ebind r (f x)) xs r" for r :: "error + 'a"
  proof (induction xs arbitrary: r)
    case Nil
    then show ?case by (cases r) simp_all
  next
    case (Cons x xs)
    have "ebind r (efold f (x # xs)) = ebind (ebind r (f x)) (efold f xs)"
      by (cases r) simp_all
    also have "\<dots> = fold (\<lambda>x r. ebind r (f x)) xs (ebind r (f x))"
      by (rule Cons.IH)
    also have "\<dots> = fold (\<lambda>x r. ebind r (f x)) (x # xs) r" by simp
    finally show ?case .
  qed
  from this [of "Inr s"] show ?thesis by simp
qed

lemma efold_permute:
  fixes f :: "'x \<Rightarrow> 's \<Rightarrow> error + 's"
  assumes perm: "mset xs = mset ys" and init: "P s"
    and keep: "\<And>x s s'. x \<in> set xs \<Longrightarrow> P s \<Longrightarrow> f x s = Inr s' \<Longrightarrow> P s'"
    and comm: "\<And>x y s. x \<in> set xs \<Longrightarrow> y \<in> set xs \<Longrightarrow> P s \<Longrightarrow>
       ebind (f x s) (f y) = ebind (f y s) (f x)"
  shows "efold f xs s = efold f ys s"
proof -
  let ?F = "\<lambda>x r. ebind r (f x)"
  let ?P = "\<lambda>r :: error + 's. case r of Inl e \<Rightarrow> True | Inr s \<Rightarrow> P s"
  have "fold ?F xs (Inr s) = fold ?F ys (Inr s)"
  proof (rule fold_permuted_eq [where P = ?P, OF perm])
    show "?P (Inr s)" using init by simp
  next
    fix x and r :: "error + 's" assume x: "x \<in> set xs" and r: "?P r"
    show "?P (ebind r (f x))"
    proof (cases r)
      case (Inl e)
      then show ?thesis by simp
    next
      case (Inr t)
      with r have "P t" by simp
      with keep [OF x this] show ?thesis
        by (cases "f x t") (simp_all add: Inr)
    qed
  next
    fix x y and r :: "error + 's" assume x: "x \<in> set xs" and y: "y \<in> set xs" and r: "?P r"
    show "ebind (ebind r (f y)) (f x) = ebind (ebind r (f x)) (f y)"
    proof (cases r)
      case (Inl e)
      then show ?thesis by simp
    next
      case (Inr t)
      with r have "P t" by simp
      from comm [OF x y this] show ?thesis by (simp add: Inr)
    qed
  qed
  then show ?thesis by (simp add: efold_as_fold)
qed

lemma efold_cong_invariant:
  assumes "P s"
    and "\<And>x s. x \<in> set xs \<Longrightarrow> P s \<Longrightarrow> f x s = g x s \<and> (\<forall>s'. f x s = Inr s' \<longrightarrow> P s')"
  shows "efold f xs s = efold g xs s"
  using assms
proof (induction xs arbitrary: s)
  case Nil
  then show ?case by simp
next
  case (Cons x xs)
  from Cons.prems(2) [of x s] Cons.prems(1) have eq: "f x s = g x s"
    and P: "\<And>s'. f x s = Inr s' \<Longrightarrow> P s'" by simp_all
  show ?case
  proof (cases "f x s")
    case (Inl e)
    moreover from Inl eq have "g x s = Inl e" by simp
    ultimately show ?thesis by simp
  next
    case (Inr s')
    have "efold f xs s' = efold g xs s'"
    proof (rule Cons.IH [OF P [OF Inr]])
      fix y t assume "y \<in> set xs" and "P t"
      with Cons.prems(2) [of y t]
      show "f y t = g y t \<and> (\<forall>s'. f y t = Inr s' \<longrightarrow> P s')" by simp
    qed
    moreover from Inr eq have "g x s = Inr s'" by simp
    ultimately show ?thesis using Inr by simp
  qed
qed

lemma strong_lists_perm:
  assumes so1: "set_order so1" and so2: "set_order so2" and dr: "distinct (map fst riskest)"
  shows "mset (dd_get [] (find_strong_relations so1 riskest) u) =
         mset (dd_get [] (find_strong_relations so2 riskest) u)"
proof -
  have d: "distinct (dd_get [] (find_strong_relations so riskest) u)" if "set_order so" for so
  proof -
    have "distinct (so (peers riskest t - {u}))" for t
      using that finite_peers [of riskest t] by (simp add: set_order_def)
    then show ?thesis
      by (simp add: strong_get [OF that dr] split: option.splits)
  qed
  have "set (dd_get [] (find_strong_relations so1 riskest) u) =
        set (dd_get [] (find_strong_relations so2 riskest) u)"
    by (simp add: strong_set [OF so1 dr] strong_set [OF so2 dr])
  with d [OF so1] d [OF so2] show ?thesis
    by (simp add: set_eq_iff_mset_eq_distinct)
qed

lemma weak_order_independent:
  assumes so1: "set_order so1" and so2: "set_order so2" and dr: "distinct (map fst riskest)"
  shows "find_weak_relations so1 riskest itds (find_strong_relations so1 riskest) =
         find_weak_relations so2 riskest itds (find_strong_relations so2 riskest)"
proof -
  let ?S1 = "find_strong_relations so1 riskest" and ?S2 = "find_strong_relations so2 riskest"
  have "weak_cond riskest itds ?S1 uid1 uid2 = weak_cond riskest itds ?S2 uid1 uid2"
    for uid1 uid2
    by (simp add: weak_cond_def strong_set [OF so1 dr] strong_set [OF so2 dr])
  then have "weak_step riskest itds ?S1 = weak_step riskest itds ?S2"
    by (intro ext) (simp add: weak_step_def)
  then show ?thesis by (simp add: find_weak_relations_def)
qed

lemma link_commute:
  assumes "wf_mat n m" and "i < n" and "j < n" and "k < n"
    and "i \<noteq> j" and "i \<noteq> k" and "j \<noteq> k"
  shows "link (link m i j w) i k w = link (link m i k w) i j w"
proof (rule mat_eqI [where n = n])
  show "wf_mat n (link (link m i j w) i k w)" using assms(1) by (simp add: wf_mat_link)
  show "wf_mat n (link (link m i k w) i j w)" using assms(1) by (simp add: wf_mat_link)
next
  fix a b assume "a < n" and "b < n"
  from assms show "mat_get (link (link m i j w) i k w) a b = mat_get (link (link m i k w) i j w) a b"
    by (simp add: mat_get_link [where n = n] wf_mat_link)
qed

lemma mat_set_pairs_commute:
  assumes "wf_mat n m" and "i < n" and "j < n" and "k < n"
    and "i \<noteq> j" and "i \<noteq> k" and "j \<noteq> k"
  shows "mat_set (mat_set (mat_set (mat_set m i j a) j i b) i k a) k i c =
         mat_set (mat_set (mat_set (mat_set m i k a) k i c) i j a) j i b"
proof (rule mat_eqI [where n = n])
  show "wf_mat n (mat_set (mat_set (mat_set (mat_set m i j a) j i b) i k a) k i c)"
    using assms(1) by (simp add: wf_mat_set)
  show "wf_mat n (mat_set (mat_set (mat_set (mat_set m i k a) k i c) i j a) j i b)"
    using assms(1) by (simp add: wf_mat_set)
next
  fix x y assume "x < n" and "y < n"
  from assms
  show "mat_get (mat_set (mat_set (mat_set (mat_set m i j a) j i b) i k a) k i c) x y =
        mat_get (mat_set (mat_set (mat_set (mat_set m i k a) k i c) i j a) j i b) x y"
    by (simp add: mat_get_set [where n = n] wf_mat_set)
qed

lemma strong_update_shape:
  assumes i: "i < length itds"
  shows "(\<forall>L R. strong_update (idx2uid itds) (uid2idx itds) epsl i x (L, R) = Inl KeyError) \<or>
     (\<exists>j e_i e_j. j < length itds \<and> sorted_uids itds ! j = x \<and>
        dict_get epsl (sorted_uids itds ! i) = Inr e_i \<and>
        (\<forall>L R. strong_update (idx2uid itds) (uid2idx itds) epsl i x (L, R) =
           Inr (link L i j (1 / 2), mat_set (mat_set R i j (- e_i)) j i (- e_j))))"
proof (cases "dict_get (uid2idx itds) x")
  case (Inl e)
  then have "e = KeyError" by (simp add: dict_get_eq_Inl)
  with Inl show ?thesis by (simp add: strong_update_eq [OF i])
next
  case j: (Inr j)
  from uid2idx_range [OF j] have jn: "j < length itds" and ju: "sorted_uids itds ! j = x"
    by simp_all
  show ?thesis
  proof (cases "dict_get epsl (sorted_uids itds ! i)")
    case (Inl e)
    then have "e = KeyError" by (simp add: dict_get_eq_Inl)
    with Inl j show ?thesis by (simp add: strong_update_eq [OF i])
  next
    case ei: (Inr e_i)
    show ?thesis
    proof (cases "dict_get epsl (sorted_uids itds ! j)")
      case (Inl e)
      then have "e = KeyError" by (simp add: dict_get_eq_Inl)
      with Inl j ei show ?thesis by (simp add: strong_update_eq [OF i])
    next
      case (Inr e_j)
      have "\<forall>L R. strong_update (idx2uid itds) (uid2idx itds) epsl i x (L, R) =
           Inr (link L i j (1 / 2), mat_set (mat_set R i j (- e_i)) j i (- e_j))"
        using Inr j ei by (simp add: strong_update_eq [OF i])
      with jn ju ei show ?thesis by blast
    qed
  qed
qed

lemma strong_update_commute:
  assumes i: "i < length itds"
    and wf: "wf_mat (length itds) L" "wf_mat (length itds) R"
    and x: "x \<noteq> sorted_uids itds ! i" and y: "y \<noteq> sorted_uids itds ! i"
  shows "ebind (strong_update (idx2uid itds) (uid2idx itds) epsl i x (L, R))
               (strong_update (idx2uid itds) (uid2idx itds) epsl i y) =
         ebind (strong_update (idx2uid itds) (uid2idx itds) epsl i y (L, R))
               (strong_update (idx2uid itds) (uid2idx itds) epsl i x)"
proof (cases "x = y")
  case True
  then show ?thesis by simp
next
  case False
  let ?f = "strong_update (idx2uid itds) (uid2idx itds) epsl i"
  from strong_update_shape [OF i, of epsl x] show ?thesis
  proof
    assume fx: "\<forall>L R. ?f x (L, R) = Inl KeyError"
    from strong_update_shape [OF i, of epsl y] show ?thesis
    proof
      assume "\<forall>L R. ?f y (L, R) = Inl KeyError"
      with fx show ?thesis by simp
    next
      assume "\<exists>j e_i e_j. j < length itds \<and> sorted_uids itds ! j = y \<and>
        dict_get epsl (sorted_uids itds ! i) = Inr e_i \<and>
        (\<forall>L R. ?f y (L, R) =
           Inr (link L i j (1 / 2), mat_set (mat_set R i j (- e_i)) j i (- e_j)))"
      with fx show ?thesis by auto
    qed
  next
    assume "\<exists>j e_i e_j. j < length itds \<and> sorted_uids itds ! j = x \<and>
        dict_get epsl (sorted_uids itds ! i) = Inr e_i \<and>
        (\<forall>L R. ?f x (L, R) =
           Inr (link L i j (1 / 2), mat_set (mat_set R i j (- e_i)) j i (- e_j)))"
    then obtain j e_i e_j where j: "j < length itds" and ju: "sorted_uids itds ! j = x"
      and ei: "dict_get epsl (sorted_uids itds ! i) = Inr e_i"
      and fx: "\<And>L R. ?f x (L, R) =
           Inr (link L i j (1 / 2), mat_set (mat_set R i j (- e_i)) j i (- e_j))"
      by blast
    from strong_update_shape [OF i, of epsl y] show ?thesis
    proof
      assume "\<forall>L R. ?f y (L, R) = Inl KeyError"
      with fx show ?thesis by simp
    next
      assume "\<exists>j e_i e_j. j < length itds \<and> sorted_uids itds ! j = y \<and>
        dict_get epsl (sorted_uids itds ! i) = Inr e_i \<and>
        (\<forall>L R. ?f y (L, R) =
           Inr (link L i j (1 / 2), mat_set (mat_set R i j (- e_i)) j i (- e_j)))"
      then obtain k e_i' e_k where k: "k < length itds" and ku: "sorted_uids itds ! k = y"
        and ei': "dict_get epsl (sorted_uids itds ! i) = Inr e_i'"
        and fy: "\<And>L R. ?f y (L, R) =
           Inr (link L i k (1 / 2), mat_set (mat_set R i k (- e_i')) k i (- e_k))"
        by blast
      from ei ei' have same: "e_i' = e_i" by simp
      from ju x have ij: "i \<noteq> j" by auto
      from ku y have ik: "i \<noteq> k" by auto
      from ju ku False have jk: "j \<noteq> k" by auto
      note lc = link_commute [OF wf(1) i j k ij ik jk, of "1 / 2"]
      note rc = mat_set_pairs_commute [OF wf(2) i j k ij ik jk, of "- e_i" "- e_j" "- e_k"]
      show ?thesis by (simp add: fx fy same lc rc)
    qed
  qed
qed

lemma strong_update_wf:
  assumes "i < length itds" and "wf_mats (length itds) s"
    and "strong_update (idx2uid itds) (uid2idx itds) epsl i x s = Inr s'"
  shows "wf_mats (length itds) s'"
proof -
  obtain L R where s: "s = (L, R)" by (cases s)
  from assms(3) obtain j a b where "s' = (link L i j (1 / 2), mat_set (mat_set R i j a) j i b)"
    by (auto simp: s strong_update_eq [OF assms(1)] ebind_eq_Inr)
  with assms(2) show ?thesis by (simp add: s wf_mats_def wf_mat_link wf_mat_set)
qed

lemma weak_update_wf:
  assumes "i < length itds" and "wf_mats (length itds) s"
    and "weak_update (idx2uid itds) (uid2idx itds) epsl theta i x s = Inr s'"
  shows "wf_mats (length itds) s'"
proof -
  obtain L R where s: "s = (L, R)" by (cases s)
  from assms(3) obtain j a b where "s' = (link L i j 1, mat_set (mat_set R i j a) j i b)"
    by (auto simp: s weak_update_eq [OF assms(1)] ebind_eq_Inr)
  with assms(2) show ?thesis by (simp add: s wf_mats_def wf_mat_link wf_mat_set)
qed

lemma row_update_wf:
  assumes i: "i < length itds" and wf: "wf_mats (length itds) s"
    and row: "row_update strong weak (idx2uid itds) (uid2idx itds) epsl theta i s = Inr s'"
  shows "wf_mats (length itds) s'"
proof -
  from row obtain s1 where
    s1: "efold (strong_update (idx2uid itds) (uid2idx itds) epsl i)
           (dd_get [] strong (sorted_uids itds ! i)) s = Inr s1"
    and s2: "efold (weak_update (idx2uid itds) (uid2idx itds) epsl theta i)
           (dd_get [] weak (sorted_uids itds ! i)) s1 = Inr s'"
    by (auto simp: row_update_eq [OF i] ebind_eq_Inr)
  have "wf_mats (length itds) s1"
    by (rule efold_invariant [where P = "wf_mats (length itds)", OF s1 wf])
       (rule strong_update_wf [OF i])
  show ?thesis
    by (rule efold_invariant [where P = "wf_mats (length itds)", OF s2 \<open>wf_mats (length itds) s1\<close>])
       (rule weak_update_wf [OF i])
qed

lemma row_update_order:
  assumes so1: "set_order so1" and so2: "set_order so2" and dr: "distinct (map fst riskest)"
    and i: "i < length itds" and wf: "wf_mats (length itds) s"
  shows "row_update (find_strong_relations so1 riskest) weak
           (idx2uid itds) (uid2idx itds) epsl theta i s =
         row_update (find_strong_relations so2 riskest) weak
           (idx2uid itds) (uid2idx itds) epsl theta i s"
proof -
  let ?f = "strong_update (idx2uid itds) (uid2idx itds) epsl i"
  let ?xs = "dd_get [] (find_strong_relations so1 riskest) (sorted_uids itds ! i)"
  let ?ys = "dd_get [] (find_strong_relations so2 riskest) (sorted_uids itds ! i)"
  have "efold ?f ?xs s = efold ?f ?ys s"
  proof (rule efold_permute [where P = "wf_mats (length itds)"])
    show "mset ?xs = mset ?ys" by (rule strong_lists_perm [OF so1 so2 dr])
    show "wf_mats (length itds) s" by (rule wf)
  next
    fix x t t' assume "wf_mats (length itds) t" and "?f x t = Inr t'"
    then show "wf_mats (length itds) t'" by (rule strong_update_wf [OF i])
  next
    fix x y t assume x: "x \<in> set ?xs" and y: "y \<in> set ?xs" and t: "wf_mats (length itds) t"
    obtain L R where lr: "t = (L, R)" by (cases t)
    from t have w: "wf_mat (length itds) L" "wf_mat (length itds) R"
      by (simp_all add: lr wf_mats_def)
    from strong_irreflexive [OF so1 dr x] strong_irreflexive [OF so1 dr y]
    show "ebind (?f x t) (?f y) = ebind (?f y t) (?f x)"
      unfolding lr by (rule strong_update_commute [OF i w])
  qed
  then show ?thesis by (simp add: row_update_eq [OF i])
qed

lemma fill_relations_order:
  assumes so1: "set_order so1" and so2: "set_order so2" and dr: "distinct (map fst riskest)"
    and wf: "wf_mats (length itds) s"
  shows "fill_relations (find_strong_relations so1 riskest) weak itds epsl theta s =
         fill_relations (find_strong_relations so2 riskest) weak itds epsl theta s"
  unfolding fill_relations_def
proof (rule efold_cong_invariant [where P = "wf_mats (length itds)", OF wf])
  fix i t assume "i \<in> set [0..<length itds]" and t: "wf_mats (length itds) t"
  then have i: "i < length itds" by simp
  from row_update_order [OF so1 so2 dr i t] row_update_wf [OF i t]
  show "row_update (find_strong_relations so1 riskest) weak
           (idx2uid itds) (uid2idx itds) epsl theta i t =
         row_update (find_strong_relations so2 riskest) weak
           (idx2uid itds) (uid2idx itds) epsl theta i t \<and>
        (\<forall>s'. row_update (find_strong_relations so1 riskest) weak
           (idx2uid itds) (uid2idx itds) epsl theta i t = Inr s' \<longrightarrow> wf_mats (length itds) s')"
    by blast
qed

text \<open>
  C8. The only input the solver does not receive from its caller is the order in which
  Python iterates the sets of \<^verbatim>\<open>_find_strong_relations\<close>. Two calls with the same
  population, riskiest trajectories, budgets and \<open>theta\<close> return the same value (the same
  disclosure dictionary, or the same error) whatever these two orders are.
\<close>

theorem compute_CIDP_deterministic:
  assumes "set_order so1" and "set_order so2" and "distinct (map fst riskest)"
  shows "compute_CIDP so1 itds riskest epsl theta = compute_CIDP so2 itds riskest epsl theta"
proof -
  let ?S1 = "find_strong_relations so1 riskest" and ?S2 = "find_strong_relations so2 riskest"
  let ?Z = "replicate (length itds) (replicate (length itds) 0)"
  note weak = weak_order_independent [OF assms, of itds]
  have fill: "fill_relations ?S1 weak itds epsl theta (?Z, R0) =
      fill_relations ?S2 weak itds epsl theta (?Z, R0)"
    if "initial_R itds epsl = Inr R0" for weak R0
  proof (rule fill_relations_order [OF assms])
    from initial_R_Inr [OF that] show "wf_mats (length itds) (?Z, R0)"
      by (simp add: wf_mats_def wf_mat_replicate)
  qed
  show ?thesis
  proof (cases "find_weak_relations so2 riskest itds ?S2")
    case (Inl e)
    with weak show ?thesis by (simp add: compute_CIDP_def)
  next
    case w: (Inr weak_relations)
    show ?thesis
    proof (cases "initial_R itds epsl")
      case (Inl e)
      with w weak show ?thesis by (simp add: compute_CIDP_def)
    next
      case (Inr R0)
      with w weak fill [OF Inr, of weak_relations] show ?thesis
        by (simp add: compute_CIDP_def)
    qed
  qed
qed

theorem compute_CIDP_deterministic_witness:
  "set_order sorted_list_of_set \<and> set_order example_rev_order \<and>
   distinct (map fst example_trio_riskest) \<and>
   find_strong_relations sorted_list_of_set example_trio_riskest
     = [(1, [2, 3]), (2, [1, 3]), (3, [1, 2])] \<and>
   find_strong_relations example_rev_order example_trio_riskest
     = [(3, [2, 1]), (2, [3, 1]), (1, [3, 2])] \<and>
   compute_CIDP sorted_list_of_set example_trio example_trio_riskest example_trio_epsl (1 / 4)
     = Inr [(1, 3 / 5), (2, 3 / 5), (3, 3 / 5)] \<and>
   compute_CIDP sorted_list_of_set example_trio example_trio_riskest example_trio_epsl (1 / 4) =
   compute_CIDP example_rev_order example_trio example_trio_riskest example_trio_epsl (1 / 4)"
proof -
  have h1: "set_order sorted_list_of_set" by (simp add: set_order_def)
  have h2: "set_order example_rev_order" by (simp add: set_order_def example_rev_order_def)
  have h3: "distinct (map fst example_trio_riskest)" by (simp add: example_trio_riskest_def)
  have h4: "find_strong_relations sorted_list_of_set example_trio_riskest
     = [(1, [2, 3]), (2, [1, 3]), (3, [1, 2])]" by code_simp
  have h5: "find_strong_relations example_rev_order example_trio_riskest
     = [(3, [2, 1]), (2, [3, 1]), (1, [3, 2])]" by code_simp
  have h6: "compute_CIDP sorted_list_of_set example_trio example_trio_riskest example_trio_epsl
     (1 / 4) = Inr [(1, 3 / 5), (2, 3 / 5), (3, 3 / 5)]" by code_simp
  from compute_CIDP_deterministic [OF h1 h2 h3] h1 h2 h3 h4 h5 h6 show ?thesis by blast
qed

end
